theory Spec2Isabelle
  imports Complex_Main
begin

section \<open>FreeKeel: annotation store, undo history, overlay repaint and PDF export\<close>

text \<open>
  The repository holds three texts of the same program:
  \<^item> \<open>App\<close>: the first document of \<^verbatim>\<open>src/app.js\<close> (lines 1 to 303);
  \<^item> \<open>AppSecond\<close>: the second document of \<^verbatim>\<open>src/app.js\<close> (lines 304 to 510, after the
    separator line);
  \<^item> \<open>Part0\<close>: \<^verbatim>\<open>src/unnamed/part_000\<close> (the text with eraser mode and colour pickers).
  The functions below take the text as their first argument and branch on it exactly where
  the three texts differ.

  JavaScript numbers are modelled as real numbers: rounding of doubles is not modelled.
  Objects live in an explicit store \<open>heap\<close>, addressed by references, because the
  program shares one stroke object between the array \<^verbatim>\<open>annotations\<close> and the closure
  variable \<^verbatim>\<open>stroke\<close> and mutates it in place.
\<close>

datatype variant = App | AppSecond | Part0

type_synonym ref = nat
type_synonym bytes = "nat list"
type_synonym point = "real \<times> real"

datatype js_error = TypeError | External string

datatype mode = TextMode | DrawMode | EraserMode

text \<open>
  An annotation object. \<open>TextA pageIndex x y text size color\<close> is
  \<^verbatim>\<open>{type: "text", pageIndex, x, y, text, size, color}\<close> and
  \<open>StrokeA pageIndex points width color\<close> is
  \<^verbatim>\<open>{type: "stroke", pageIndex, points, width, color}\<close>. A property that an object
  literal does not set is \<^verbatim>\<open>undefined\<close>, here \<open>None\<close>. The array \<^verbatim>\<open>points\<close> is
  referenced from its stroke object only, so it is kept inside the object.
\<close>

datatype annotation =
    TextA (pageIndex: nat) real real string "real option" "string option"
  | StrokeA (pageIndex: nat) (points: "point list") "real option" "string option"

text \<open>\<^verbatim>\<open>a || d\<close> for a number or string property \<open>a\<close> that may be undefined:
  \<^verbatim>\<open>undefined\<close>, \<^verbatim>\<open>0\<close> and \<^verbatim>\<open>""\<close> are falsy.\<close>

definition num_or :: "real option \<Rightarrow> real \<Rightarrow> real" where
  "num_or a d = (case a of None \<Rightarrow> d | Some n \<Rightarrow> if n = 0 then d else n)"

definition str_or :: "string option \<Rightarrow> string \<Rightarrow> string" where
  "str_or a d = (case a of None \<Rightarrow> d | Some s \<Rightarrow> if s = [] then d else s)"

text \<open>\<^verbatim>\<open>parseInt(input.value) || d\<close>: \<open>None\<close> is the result \<^verbatim>\<open>NaN\<close> of \<^verbatim>\<open>parseInt\<close>.\<close>

definition parsed_or :: "int option \<Rightarrow> real \<Rightarrow> real" where
  "parsed_or a d = (case a of None \<Rightarrow> d | Some n \<Rightarrow> if n = 0 then d else real_of_int n)"

subsection \<open>The overlay canvas of a page\<close>

datatype path_cmd = MoveTo real real | LineTo real real

text \<open>
  What a canvas context has painted since it was last cleared, one entry per call of
  \<^verbatim>\<open>fillText\<close> or \<^verbatim>\<open>stroke\<close>, oldest first (later entries are painted over earlier
  ones). \<open>FillText fillStyle px text x y\<close> is a \<^verbatim>\<open>fillText(text, x, y)\<close> under the
  font \<^verbatim>\<open>"<px>px Arial"\<close>; \<open>StrokePath strokeStyle lineWidth path\<close> is a
  \<^verbatim>\<open>stroke()\<close> of the path built since \<^verbatim>\<open>beginPath()\<close>, where \<open>lineWidth = None\<close>
  says that the program never assigned \<^verbatim>\<open>lineWidth\<close>.
\<close>

datatype draw_op =
    FillText string real string real real
  | StrokePath string "real option" "path_cmd list"

text \<open>An entry \<^verbatim>\<open>{ anno, annoCtx }\<close> of \<^verbatim>\<open>pages\<close>: the size of the canvas \<^verbatim>\<open>anno\<close>
  and what \<^verbatim>\<open>annoCtx\<close> shows.\<close>

record page_view =
  anno_width :: real
  anno_height :: real
  surface :: "draw_op list"

subsection \<open>The module state\<close>

record app_state =
  mode :: mode
  pdfBytes :: "bytes option"
  pages :: "page_view list"
  annotations :: "ref list"
  history :: "ref list list"
  heap :: "ref \<Rightarrow> annotation"
  next_ref :: ref

text \<open>The variables \<^verbatim>\<open>pageIndex\<close>, \<^verbatim>\<open>drawing\<close> and \<^verbatim>\<open>stroke\<close> that the listeners
  registered by one call of \<^verbatim>\<open>wire\<close> close over.\<close>

record wire_env =
  w_pageIndex :: nat
  drawing :: bool
  stroke :: "ref option"

definition wire :: "nat \<Rightarrow> wire_env" where
  "wire i = \<lparr>w_pageIndex = i, drawing = False, stroke = None\<rparr>"

text \<open>
  What a listener reads from the browser when it runs: the pointer position, the
  rectangle of \<^verbatim>\<open>canvas.getBoundingClientRect()\<close>, the answer of \<^verbatim>\<open>prompt("Text:")\<close>
  (\<open>None\<close> when cancelled), and for \<open>Part0\<close> the controls
  \<^verbatim>\<open>parseInt(textSizeInput.value)\<close>, \<^verbatim>\<open>textColorInput.value\<close>,
  \<^verbatim>\<open>drawColorInput.value\<close> and \<^verbatim>\<open>parseInt(lineWidthInput.value)\<close>.
\<close>

record ui_event =
  clientX :: real
  clientY :: real
  rect_left :: real
  rect_top :: real
  prompt_text :: "string option"
  textSizeInput :: "int option"
  textColorInput :: string
  drawColorInput :: string
  lineWidthInput :: "int option"

definition pointer :: "ui_event \<Rightarrow> point" where
  "pointer e = (clientX e - rect_left e, clientY e - rect_top e)"

text \<open>Evaluating an object literal allocates a new object.\<close>

definition alloc :: "annotation \<Rightarrow> app_state \<Rightarrow> ref \<times> app_state" where
  "alloc a st =
     (next_ref st, st\<lparr>heap := (heap st)(next_ref st := a), next_ref := Suc (next_ref st)\<rparr>)"

text \<open>
  \<^verbatim>\<open>structuredClone(annotations)\<close>: the array is read as a value and rebuilt from new
  objects. (The program never puts one object into the array twice, so the sharing that
  \<^verbatim>\<open>structuredClone\<close> would keep between two such entries is not modelled.)
\<close>

definition structuredClone :: "ref list \<Rightarrow> app_state \<Rightarrow> ref list \<times> app_state" where
  "structuredClone rs st =
     (let n = next_ref st; vals = map (heap st) rs
      in ([n ..< n + length rs],
          st\<lparr>heap := (\<lambda>r. if n \<le> r \<and> r < n + length rs then vals ! (r - n) else heap st r),
             next_ref := n + length rs\<rparr>))"

subsection \<open>Repaint\<close>

fun path_of :: "point list \<Rightarrow> path_cmd list" where
  "path_of [] = []"
| "path_of (p # ps) = MoveTo (fst p) (snd p) # map (\<lambda>q. LineTo (fst q) (snd q)) ps"

fun overlay_op :: "variant \<Rightarrow> annotation \<Rightarrow> draw_op" where
  "overlay_op v (TextA i x y t s c) =
     FillText (if v = Part0 then str_or c ''yellow'' else ''yellow'')
              (if v = AppSecond then 18 else num_or s 18) t x y"
| "overlay_op v (StrokeA i pts w c) =
     StrokePath (if v = Part0 then str_or c ''lime'' else ''lime'')
                (if v = AppSecond then None else Some (num_or w 2)) (path_of pts)"

definition clearRect :: "page_view \<Rightarrow> page_view" where
  "clearRect p = p\<lparr>surface := []\<rparr>"

definition paint :: "variant \<Rightarrow> annotation \<Rightarrow> page_view \<Rightarrow> page_view" where
  "paint v a p = p\<lparr>surface := surface p @ [overlay_op v a]\<rparr>"

text \<open>The loop \<^verbatim>\<open>for (const a of annotations)\<close> of \<^verbatim>\<open>redraw\<close>;
  \<^verbatim>\<open>pages[a.pageIndex]\<close> is \<^verbatim>\<open>undefined\<close> beyond the end of the array.\<close>

fun redraw_loop :: "variant \<Rightarrow> annotation list \<Rightarrow> page_view list \<Rightarrow> page_view list" where
  "redraw_loop v [] ps = ps"
| "redraw_loop v (a # as) ps =
     redraw_loop v as
       (if pageIndex a < length ps then ps[pageIndex a := paint v a (ps ! pageIndex a)] else ps)"

definition redraw :: "variant \<Rightarrow> app_state \<Rightarrow> app_state" where
  "redraw v st =
     st\<lparr>pages := redraw_loop v (map (heap st) (annotations st)) (map clearRect (pages st))\<rparr>"

subsection \<open>Undo stack\<close>

definition pushHistory :: "app_state \<Rightarrow> app_state" where
  "pushHistory st =
     (let (c, st1) = structuredClone (annotations st) st;
          h = history st1 @ [c]
      in st1\<lparr>history := (if length h > 50 then tl h else h)\<rparr>)"

definition undo :: "variant \<Rightarrow> app_state \<Rightarrow> app_state" where
  "undo v st =
     (if history st = [] then st
      else redraw v (st\<lparr>annotations := last (history st), history := butlast (history st)\<rparr>))"

subsection \<open>The listeners of \<^verbatim>\<open>wire\<close>\<close>

definition new_text :: "variant \<Rightarrow> wire_env \<Rightarrow> ui_event \<Rightarrow> string \<Rightarrow> annotation" where
  "new_text v w e t =
     TextA (w_pageIndex w) (fst (pointer e)) (snd (pointer e)) t
       (case v of App \<Rightarrow> Some 18 | AppSecond \<Rightarrow> None
        | Part0 \<Rightarrow> Some (parsed_or (textSizeInput e) 18))
       (case v of Part0 \<Rightarrow> Some (textColorInput e) | _ \<Rightarrow> None)"

definition push_annotation :: "annotation \<Rightarrow> app_state \<Rightarrow> ref \<times> app_state" where
  "push_annotation a st =
     (let (r, st1) = alloc a st in (r, st1\<lparr>annotations := annotations st1 @ [r]\<rparr>))"

text \<open>
  The click listener. \<open>App\<close> and \<open>Part0\<close> ask for the text first and return before
  \<^verbatim>\<open>pushHistory()\<close> when the answer is empty; \<open>AppSecond\<close> calls \<^verbatim>\<open>pushHistory()\<close>
  first. In \<open>Part0\<close> the call \<^verbatim>\<open>redraw();\<close> sits behind the line comment of the
  \<^verbatim>\<open>annotations.push\<close> line and is not executed.
\<close>

definition click :: "variant \<Rightarrow> wire_env \<Rightarrow> ui_event \<Rightarrow> app_state \<Rightarrow> app_state" where
  "click v w e st =
     (if mode st \<noteq> TextMode then st
      else if v = AppSecond then
        (let st1 = pushHistory st in
         case prompt_text e of None \<Rightarrow> st1
         | Some t \<Rightarrow> if t = [] then st1
                     else redraw v (snd (push_annotation (new_text v w e t) st1)))
      else
        (case prompt_text e of None \<Rightarrow> st
         | Some t \<Rightarrow> if t = [] then st
                     else (let st2 = snd (push_annotation (new_text v w e t) (pushHistory st))
                           in if v = Part0 then st2 else redraw v st2)))"

definition new_stroke :: "variant \<Rightarrow> wire_env \<Rightarrow> ui_event \<Rightarrow> mode \<Rightarrow> annotation" where
  "new_stroke v w e m =
     StrokeA (w_pageIndex w) []
       (case v of App \<Rightarrow> Some 2 | AppSecond \<Rightarrow> None
        | Part0 \<Rightarrow> Some (parsed_or (lineWidthInput e) 2))
       (case v of Part0 \<Rightarrow> Some (if m = EraserMode then ''#FFFFFF'' else drawColorInput e)
        | _ \<Rightarrow> None)"

text \<open>\<^verbatim>\<open>stroke.points.push(pt)\<close> on the object at \<open>r\<close>. The variable \<^verbatim>\<open>stroke\<close> only
  ever holds an object made by \<open>new_stroke\<close>; a text object is left as it is.\<close>

fun add_point :: "point \<Rightarrow> annotation \<Rightarrow> annotation" where
  "add_point p (StrokeA i pts w c) = StrokeA i (pts @ [p]) w c"
| "add_point p (TextA i x y t s c) = TextA i x y t s c"

definition points_push :: "ref \<Rightarrow> point \<Rightarrow> app_state \<Rightarrow> app_state" where
  "points_push r p st = st\<lparr>heap := (heap st)(r := add_point p (heap st r))\<rparr>"

definition draws :: "variant \<Rightarrow> mode \<Rightarrow> bool" where
  "draws v m = (m = DrawMode \<or> (v = Part0 \<and> m = EraserMode))"

text \<open>The mousedown listener. \<open>AppSecond\<close> pushes the empty stroke and stops there; the
  other two texts go on to push the pointer position onto \<^verbatim>\<open>stroke.points\<close>.\<close>

definition mousedown ::
  "variant \<Rightarrow> wire_env \<Rightarrow> ui_event \<Rightarrow> app_state \<Rightarrow> wire_env \<times> app_state" where
  "mousedown v w e st =
     (if \<not> draws v (mode st) then (w, st)
      else (let (r, st2) = push_annotation (new_stroke v w e (mode st)) (pushHistory st);
                w' = w\<lparr>drawing := True, stroke := Some r\<rparr>
            in if v = AppSecond then (w', st2) else (w', points_push r (pointer e) st2)))"

text \<open>The mousemove listener; \<^verbatim>\<open>stroke.points\<close> with \<^verbatim>\<open>stroke\<close> being \<^verbatim>\<open>null\<close> would
  raise a TypeError.\<close>

definition mousemove ::
  "variant \<Rightarrow> wire_env \<Rightarrow> ui_event \<Rightarrow> app_state \<Rightarrow> js_error + wire_env \<times> app_state" where
  "mousemove v w e st =
     (if \<not> drawing w \<or> \<not> draws v (mode st) then Inr (w, st)
      else case stroke w of None \<Rightarrow> Inl TypeError
           | Some r \<Rightarrow> Inr (w, redraw v (points_push r (pointer e) st)))"

definition mouseup :: "variant \<Rightarrow> wire_env \<Rightarrow> wire_env" where
  "mouseup v w = (if v = AppSecond then w\<lparr>drawing := False\<rparr>
                  else w\<lparr>drawing := False, stroke := None\<rparr>)"

text \<open>A run of mousemove events delivered to one canvas, stopping at the first error.\<close>

fun mousemoves ::
  "variant \<Rightarrow> ui_event list \<Rightarrow> wire_env \<times> app_state \<Rightarrow> js_error + wire_env \<times> app_state" where
  "mousemoves v [] ws = Inr ws"
| "mousemoves v (e # es) ws =
     (case mousemove v (fst ws) e (snd ws) of Inl err \<Rightarrow> Inl err
      | Inr ws' \<Rightarrow> mousemoves v es ws')"

subsection \<open>Loading and rendering\<close>

text \<open>
  The rasteriser (pdf.js) is outside the repository and is a parameter: \<open>getDocument\<close>
  gives, for the bytes of a file, either the error that rejects
  \<^verbatim>\<open>loadingTask.promise\<close> (malformed bytes, or the error thrown when the password prompt
  is cancelled), or for each page either the error of \<^verbatim>\<open>getPage\<close>/\<^verbatim>\<open>render\<close> or the
  size of its viewport at scale 1.5.
\<close>

datatype page_load = PageFails js_error | PageRendered real real

datatype load_outcome = Loaded | Alerted js_error | Uncaught js_error

text \<open>The page loop of \<^verbatim>\<open>renderPdf\<close>: each rendered page is pushed onto \<^verbatim>\<open>pages\<close>
  with an empty overlay canvas of the size of the page canvas; the first failure leaves
  the loop.\<close>

fun render_pages :: "page_load list \<Rightarrow> page_view list \<Rightarrow> page_view list \<times> js_error option" where
  "render_pages [] ps = (ps, None)"
| "render_pages (PageFails err # ls) ps = (ps, Some err)"
| "render_pages (PageRendered wd ht # ls) ps =
     render_pages ls (ps @ [\<lparr>anno_width = wd, anno_height = ht, surface = []\<rparr>])"

text \<open>\<open>App\<close> and \<open>Part0\<close> wrap the body in \<^verbatim>\<open>try\<close>/\<^verbatim>\<open>catch\<close>, report the error with
  \<^verbatim>\<open>alert\<close> and call \<^verbatim>\<open>redraw()\<close> after the loop; \<open>AppSecond\<close> does neither.\<close>

definition renderPdf ::
  "variant \<Rightarrow> (bytes \<Rightarrow> js_error + page_load list) \<Rightarrow> bytes \<Rightarrow> app_state
     \<Rightarrow> app_state \<times> load_outcome" where
  "renderPdf v getDocument b st =
     (let st1 = st\<lparr>pages := []\<rparr>;
          failed = (\<lambda>err. if v = AppSecond then Uncaught err else Alerted err)
      in case getDocument b of
           Inl err \<Rightarrow> (st1, failed err)
         | Inr ls \<Rightarrow>
             (case render_pages ls [] of
                (ps, Some err) \<Rightarrow> (st1\<lparr>pages := ps\<rparr>, failed err)
              | (ps, None) \<Rightarrow>
                  (if v = AppSecond then st1\<lparr>pages := ps\<rparr> else redraw v (st1\<lparr>pages := ps\<rparr>),
                   Loaded)))"

definition loadFile ::
  "variant \<Rightarrow> (bytes \<Rightarrow> js_error + page_load list) \<Rightarrow> bytes \<Rightarrow> app_state
     \<Rightarrow> app_state \<times> load_outcome" where
  "loadFile v getDocument b st =
     renderPdf v getDocument b (st\<lparr>pdfBytes := Some b, annotations := [], history := []\<rparr>)"

subsection \<open>Export\<close>

text \<open>
  The document mutator (pdf-lib) is outside the repository and is a parameter. A loaded
  document is given by what \<^verbatim>\<open>pdfDoc.getPage(i)\<close> does: it raises, or returns a falsy
  value, or returns a page whose \<^verbatim>\<open>getSize()\<close> is \<open>(width, height)\<close>.
\<close>

datatype page_lookup = GetPageThrows js_error | GetPageUndefined | GetPage real real

type_synonym pdf_doc = "nat \<Rightarrow> page_lookup"

datatype rgb = RGB real real real

text \<open>\<open>DrawText i text x y size color\<close> and \<open>DrawLine i start end thickness color\<close>: the
  calls \<^verbatim>\<open>drawText\<close> (always with the embedded Helvetica font) and \<^verbatim>\<open>drawLine\<close> on
  page \<open>i\<close> of the document.\<close>

datatype pdf_op =
    DrawText nat string real real real rgb
  | DrawLine nat point point real rgb

datatype save_result = NoPdfAlert | Downloaded "pdf_op list"

text \<open>The pairs \<^verbatim>\<open>(points[i - 1], points[i])\<close> for \<^verbatim>\<open>i\<close> from 1 below
  \<^verbatim>\<open>points.length\<close>.\<close>

fun segments :: "point list \<Rightarrow> (point \<times> point) list" where
  "segments (p1 # p2 # ps) = (p1, p2) # segments (p2 # ps)"
| "segments ps = []"

text \<open>The two \<^verbatim>\<open>if (a.type === ...)\<close> blocks of \<^verbatim>\<open>savePdf\<close>, where \<open>wd\<close>, \<open>ht\<close> is the
  page's size and \<open>c\<close> the overlay canvas. \<open>AppSecond\<close> uses the constants 18 and 2.\<close>

fun draw_annotation ::
  "variant \<Rightarrow> real \<Rightarrow> real \<Rightarrow> page_view \<Rightarrow> annotation \<Rightarrow> pdf_op list" where
  "draw_annotation v wd ht c (TextA i x y t s col) =
     (let sx = wd / anno_width c; sy = ht / anno_height c;
          sz = (if v = AppSecond then 18 else num_or s 18)
      in [DrawText i t (x * sx) (ht - (y * sy) - sz) sz (RGB 1 1 0)])"
| "draw_annotation v wd ht c (StrokeA i pts w col) =
     (let sx = wd / anno_width c; sy = ht / anno_height c;
          thickness = (if v = AppSecond then 2 else num_or w 2)
      in map (\<lambda>(p1, p2). DrawLine i (fst p1 * sx, ht - snd p1 * sy)
                                     (fst p2 * sx, ht - snd p2 * sy) thickness (RGB 0 1 0))
             (segments pts))"

text \<open>
  One turn of the loop \<^verbatim>\<open>for (const a of annotations)\<close> of \<^verbatim>\<open>savePdf\<close>. \<open>App\<close> and
  \<open>Part0\<close> \<^verbatim>\<open>continue\<close> when \<^verbatim>\<open>page\<close> or \<^verbatim>\<open>pages[a.pageIndex]?.anno\<close> is falsy.
  \<open>AppSecond\<close> has neither test: \<^verbatim>\<open>page.getSize()\<close> on a falsy \<^verbatim>\<open>page\<close> and
  \<^verbatim>\<open>pages[a.pageIndex].anno\<close> beyond the end of \<^verbatim>\<open>pages\<close> raise a TypeError.
\<close>

definition savePdf_body ::
  "variant \<Rightarrow> pdf_doc \<Rightarrow> page_view list \<Rightarrow> annotation \<Rightarrow> js_error + pdf_op list" where
  "savePdf_body v doc ps a =
     (case doc (pageIndex a) of
        GetPageThrows err \<Rightarrow> Inl err
      | GetPageUndefined \<Rightarrow> if v = AppSecond then Inl TypeError else Inr []
      | GetPage wd ht \<Rightarrow>
          if pageIndex a < length ps then Inr (draw_annotation v wd ht (ps ! pageIndex a) a)
          else if v = AppSecond then Inl TypeError else Inr [])"

fun savePdf_loop ::
  "variant \<Rightarrow> pdf_doc \<Rightarrow> page_view list \<Rightarrow> annotation list \<Rightarrow> js_error + pdf_op list" where
  "savePdf_loop v doc ps [] = Inr []"
| "savePdf_loop v doc ps (a # as) =
     (case savePdf_body v doc ps a of Inl err \<Rightarrow> Inl err
      | Inr ops \<Rightarrow> (case savePdf_loop v doc ps as of Inl err \<Rightarrow> Inl err
                    | Inr rest \<Rightarrow> Inr (ops @ rest)))"

text \<open>\<^verbatim>\<open>savePdf\<close>: \<open>load\<close> is \<^verbatim>\<open>PDFLib.PDFDocument.load\<close>; the result lists the drawing
  calls made on the document that is then saved and offered as \<^verbatim>\<open>edited.pdf\<close>.
  (\<^verbatim>\<open>embedFont\<close> and \<^verbatim>\<open>save\<close> are taken to succeed.)\<close>

definition savePdf ::
  "variant \<Rightarrow> (bytes \<Rightarrow> js_error + pdf_doc) \<Rightarrow> app_state \<Rightarrow> js_error + save_result" where
  "savePdf v load st =
     (case pdfBytes st of None \<Rightarrow> Inr NoPdfAlert
      | Some b \<Rightarrow>
          (case load b of Inl err \<Rightarrow> Inl err
           | Inr doc \<Rightarrow>
               (case savePdf_loop v doc (pages st) (map (heap st) (annotations st)) of
                  Inl err \<Rightarrow> Inl err
                | Inr ops \<Rightarrow> Inr (Downloaded ops))))"

subsection \<open>Views of the state used in the statements\<close>

text \<open>The annotation sequence as a value, and the snapshots of the history as values:
  two stores are structurally equal when these agree.\<close>

definition ann_vals :: "app_state \<Rightarrow> annotation list" where
  "ann_vals st = map (heap st) (annotations st)"

definition hist_vals :: "app_state \<Rightarrow> annotation list list" where
  "hist_vals st = map (map (heap st)) (history st)"

definition init_state :: app_state where
  "init_state = \<lparr>mode = TextMode, pdfBytes = None, pages = [], annotations = [], history = [],
                  heap = (\<lambda>r. StrokeA 0 [] None None), next_ref = 0\<rparr>"


subsection \<open>A concrete session\<close>

text \<open>The state after a one-page file of 900 by 1400 pixels was loaded and one text was
  placed on it, and the values a listener reads at one pointer event.\<close>

definition sample_state :: app_state where
  "sample_state =
     \<lparr>mode = TextMode, pdfBytes = Some [37, 80, 68, 70],
      pages = [\<lparr>anno_width = 900, anno_height = 1400,
                surface = [FillText ''yellow'' 18 ''A'' 50 50]\<rparr>],
      annotations = [0], history = [[]],
      heap = (\<lambda>r. StrokeA 0 [] None None)(0 := TextA 0 50 50 ''A'' (Some 18) None),
      next_ref = 1\<rparr>"

definition sample_event :: ui_event where
  "sample_event =
     \<lparr>clientX = 60, clientY = 70, rect_left = 10, rect_top = 20, prompt_text = Some ''Hi'',
      textSizeInput = Some 24, textColorInput = ''#ff0000'', drawColorInput = ''#0000ff'',
      lineWidthInput = Some 3\<rparr>"

text \<open>A three-page session in which the first annotation names page 5 and the second
  names page 0, and a session holding a text and a two-point eraser stroke of \<open>Part0\<close>.\<close>

definition dangling_state :: app_state where
  "dangling_state =
     \<lparr>mode = TextMode, pdfBytes = Some [37, 80, 68, 70],
      pages = replicate 3 \<lparr>anno_width = 900, anno_height = 1400, surface = []\<rparr>,
      annotations = [0, 1], history = [],
      heap = (\<lambda>r. StrokeA 0 [] None None)
               (0 := TextA 5 50 50 ''lost'' None None, 1 := TextA 0 50 50 ''Hi'' None None),
      next_ref = 2\<rparr>"

definition erased_state :: app_state where
  "erased_state =
     \<lparr>mode = EraserMode, pdfBytes = Some [37, 80, 68, 70],
      pages = [\<lparr>anno_width = 900, anno_height = 1400, surface = []\<rparr>],
      annotations = [0, 1], history = [[], [2]],
      heap = (\<lambda>r. StrokeA 0 [] None None)
               (0 := TextA 0 50 100 ''Hi'' (Some 24) (Some ''#ff0000''),
                1 := StrokeA 0 [(0, 0), (900, 1400)] (Some 3) (Some ''#FFFFFF''),
                2 := TextA 0 50 100 ''Hi'' (Some 24) (Some ''#ff0000'')),
      next_ref = 3\<rparr>"

text \<open>A document of \<open>n\<close> US Letter pages whose \<^verbatim>\<open>getPage\<close> returns a falsy value
  beyond them, and a rasteriser that rejects every file.\<close>

definition letter_doc :: "nat \<Rightarrow> pdf_doc" where
  "letter_doc n i = (if i < n then GetPage 612 792 else GetPageUndefined)"

definition broken_file :: "bytes \<Rightarrow> js_error + page_load list" where
  "broken_file b = Inl (External ''Invalid PDF structure.'')"

text \<open>A one-page session holding a text of size 18 anchored at pixel \<open>(50, 100)\<close> and a
  stroke through three points.\<close>

definition export_state :: app_state where
  "export_state =
     \<lparr>mode = DrawMode, pdfBytes = Some [37, 80, 68, 70],
      pages = [\<lparr>anno_width = 900, anno_height = 1400, surface = []\<rparr>],
      annotations = [0, 1], history = [[], [2]],
      heap = (\<lambda>r. StrokeA 0 [] None None)
               (0 := TextA 0 50 100 ''Hi'' (Some 18) None,
                1 := StrokeA 0 [(0, 0), (900, 1400), (450, 700)] (Some 2) None,
                2 := TextA 0 50 100 ''Hi'' (Some 18) None),
      next_ref = 3\<rparr>"

text \<open>A two-page session with a text, a stroke and a text on its second page, in this
  order, and one text on its first page placed between them.\<close>

definition layered_state :: app_state where
  "layered_state =
     \<lparr>mode = DrawMode, pdfBytes = Some [37, 80, 68, 70],
      pages = replicate 2 \<lparr>anno_width = 900, anno_height = 1400, surface = []\<rparr>,
      annotations = [0, 1, 2, 3], history = [],
      heap = (\<lambda>r. StrokeA 0 [] None None)
               (0 := TextA 1 10 20 ''A'' (Some 18) None,
                1 := StrokeA 1 [(0, 0), (5, 5)] (Some 2) None,
                2 := TextA 0 7 7 ''elsewhere'' (Some 18) None,
                3 := TextA 1 30 40 ''C'' (Some 18) None),
      next_ref = 4\<rparr>"

subsection \<open>Predicates used in the statements\<close>

text \<open>Every reference held in \<^verbatim>\<open>annotations\<close> or \<^verbatim>\<open>history\<close> names an object that
  has been allocated.\<close>

definition wf_state :: "app_state \<Rightarrow> bool" where
  "wf_state st \<longleftrightarrow>
     (\<forall>r\<in>set (annotations st). r < next_ref st) \<and>
     (\<forall>h\<in>set (history st). \<forall>r\<in>set h. r < next_ref st)"

text \<open>An exported drawing call has the fixed colour of its kind: \<^verbatim>\<open>rgb(1, 1, 0)\<close> for
  text, \<^verbatim>\<open>rgb(0, 1, 0)\<close> for a line.\<close>

definition fixed_colour :: "pdf_op \<Rightarrow> bool" where
  "fixed_colour op = (case op of DrawText i t x y s col \<Rightarrow> col = RGB 1 1 0
                      | DrawLine i p q th col \<Rightarrow> col = RGB 0 1 0)"

text \<open>The two array operations of \<^verbatim>\<open>pushHistory\<close>, \<^verbatim>\<open>history.push(c)\<close> and
  \<^verbatim>\<open>if (history.length > 50) history.shift()\<close>, on a list of any entries.\<close>

definition bounded_push :: "'a list \<Rightarrow> 'a \<Rightarrow> 'a list" where
  "bounded_push h c = (let h' = h @ [c] in if length h' > 50 then tl h' else h')"

text \<open>The text annotations that a run of answered clicks on one canvas appends.\<close>

definition texts :: "variant \<Rightarrow> wire_env \<Rightarrow> ui_event list \<Rightarrow> annotation list" where
  "texts v w es = map (\<lambda>e. new_text v w e (the (prompt_text e))) es"

section \<open>Basic facts about the operations\<close>

lemma clone_heap:
  "heap (snd (structuredClone rs st)) r =
     (if next_ref st \<le> r \<and> r < next_ref st + length rs then heap st (rs ! (r - next_ref st))
      else heap st r)"
proof -
  have "r - next_ref st < length rs" if "next_ref st \<le> r" "r < next_ref st + length rs"
    using that by arith
  then show ?thesis by (simp add: structuredClone_def Let_def)
qed

lemma pushHistory_annotations [simp]: "annotations (pushHistory st) = annotations st"
  by (simp add: pushHistory_def structuredClone_def Let_def)

lemma pushHistory_pages [simp]: "pages (pushHistory st) = pages st"
  by (simp add: pushHistory_def structuredClone_def Let_def)

lemma pushHistory_mode [simp]: "mode (pushHistory st) = mode st"
  by (simp add: pushHistory_def structuredClone_def Let_def)

lemma pushHistory_pdfBytes [simp]: "pdfBytes (pushHistory st) = pdfBytes st"
  by (simp add: pushHistory_def structuredClone_def Let_def)

lemma pushHistory_next_ref: "next_ref (pushHistory st) = next_ref st + length (annotations st)"
  by (simp add: pushHistory_def structuredClone_def Let_def)

lemma pushHistory_heap:
  "heap (pushHistory st) r =
     (if next_ref st \<le> r \<and> r < next_ref st + length (annotations st)
      then heap st (annotations st ! (r - next_ref st)) else heap st r)"
proof -
  have "heap (pushHistory st) = heap (snd (structuredClone (annotations st) st))"
    by (simp add: pushHistory_def split_def Let_def)
  then show ?thesis by (simp add: clone_heap)
qed

lemma pushHistory_history:
  "history (pushHistory st) =
     (let h = history st @ [[next_ref st ..< next_ref st + length (annotations st)]]
      in if length h > 50 then tl h else h)"
  by (simp add: pushHistory_def structuredClone_def Let_def)

lemma pushHistory_history_nonempty: "history (pushHistory st) \<noteq> []"
  by (cases "history st") (simp_all add: pushHistory_history Let_def)

lemma pushHistory_last:
  "last (history (pushHistory st)) = [next_ref st ..< next_ref st + length (annotations st)]"
  by (cases "history st") (simp_all add: pushHistory_history Let_def)

lemma pushHistory_butlast:
  "butlast (history (pushHistory st)) =
     (if length (history st) < 50 then history st else tl (history st))"
  by (cases "history st") (simp_all add: pushHistory_history Let_def butlast_append)

lemma pushHistory_length:
  "length (history (pushHistory st)) =
     (if length (history st) < 50 then Suc (length (history st)) else length (history st))"
  by (simp add: pushHistory_history Let_def)

text \<open>The snapshot on top of the history after \<open>pushHistory\<close> has the values of the
  annotation sequence.\<close>

lemma pushHistory_snapshot:
  "map (heap (pushHistory st)) (last (history (pushHistory st))) = ann_vals st"
  by (rule nth_equalityI) (simp_all add: pushHistory_last pushHistory_heap ann_vals_def)

lemma redraw_fields [simp]:
  "annotations (redraw v st) = annotations st"
  "history (redraw v st) = history st"
  "heap (redraw v st) = heap st"
  "next_ref (redraw v st) = next_ref st"
  "mode (redraw v st) = mode st"
  "pdfBytes (redraw v st) = pdfBytes st"
  by (simp_all add: redraw_def)

lemma push_annotation_fields [simp]:
  "fst (push_annotation a st) = next_ref st"
  "annotations (snd (push_annotation a st)) = annotations st @ [next_ref st]"
  "history (snd (push_annotation a st)) = history st"
  "heap (snd (push_annotation a st)) = (heap st)(next_ref st := a)"
  "next_ref (snd (push_annotation a st)) = Suc (next_ref st)"
  "mode (snd (push_annotation a st)) = mode st"
  "pages (snd (push_annotation a st)) = pages st"
  "pdfBytes (snd (push_annotation a st)) = pdfBytes st"
  by (simp_all add: push_annotation_def alloc_def)

lemma points_push_fields [simp]:
  "annotations (points_push r p st) = annotations st"
  "history (points_push r p st) = history st"
  "heap (points_push r p st) = (heap st)(r := add_point p (heap st r))"
  "next_ref (points_push r p st) = next_ref st"
  "mode (points_push r p st) = mode st"
  "pages (points_push r p st) = pages st"
  "pdfBytes (points_push r p st) = pdfBytes st"
  by (simp_all add: points_push_def)

lemma ann_vals_undo:
  "history st \<noteq> [] \<Longrightarrow> ann_vals (undo v st) = map (heap st) (last (history st))"
  by (simp add: undo_def ann_vals_def)

text \<open>Whatever happened after a \<open>pushHistory\<close>, as long as the history is the one it
  left and the objects it made are untouched, \<open>undo\<close> brings the values back.\<close>

lemma undo_restores:
  assumes h: "history st' = history (pushHistory st)"
    and hp: "\<And>r. r < next_ref st + length (annotations st) \<Longrightarrow>
               heap st' r = heap (pushHistory st) r"
  shows "ann_vals (undo v st') = ann_vals st"
proof -
  have ne: "history st' \<noteq> []"
    by (simp add: h pushHistory_history_nonempty)
  have "map (heap st') (last (history st')) =
          map (heap (pushHistory st)) (last (history (pushHistory st)))"
    by (simp add: h pushHistory_last hp)
  then show ?thesis
    by (simp add: ann_vals_undo [OF ne] pushHistory_snapshot)
qed

lemma click_effect:
  assumes "mode st = TextMode" and "prompt_text e = Some t" and "t \<noteq> []"
  shows "history (click v w e st) = history (pushHistory st)"
    and "heap (click v w e st) =
           (heap (pushHistory st))(next_ref (pushHistory st) := new_text v w e t)"
    and "annotations (click v w e st) = annotations st @ [next_ref (pushHistory st)]"
    and "next_ref (click v w e st) = Suc (next_ref (pushHistory st))"
  using assms by (simp_all add: click_def Let_def)

lemma mousedown_effect:
  assumes "draws v (mode st)"
  shows "fst (mousedown v w e st) =
           w\<lparr>drawing := True, stroke := Some (next_ref (pushHistory st))\<rparr>"
    and "history (snd (mousedown v w e st)) = history (pushHistory st)"
    and "heap (snd (mousedown v w e st)) =
           (heap (pushHistory st))(next_ref (pushHistory st) :=
              StrokeA (w_pageIndex w) (if v = AppSecond then [] else [pointer e])
                (case v of App \<Rightarrow> Some 2 | AppSecond \<Rightarrow> None
                 | Part0 \<Rightarrow> Some (parsed_or (lineWidthInput e) 2))
                (case v of
                   Part0 \<Rightarrow> Some (if mode st = EraserMode then ''#FFFFFF'' else drawColorInput e)
                 | _ \<Rightarrow> None))"
    and "annotations (snd (mousedown v w e st)) = annotations st @ [next_ref (pushHistory st)]"
    and "next_ref (snd (mousedown v w e st)) = Suc (next_ref (pushHistory st))"
    and "mode (snd (mousedown v w e st)) = mode st"
  using assms by (simp_all add: mousedown_def Let_def split_def new_stroke_def)

text \<open>A run of mousemove events on the canvas whose stroke is live never raises, and
  changes nothing in the store but the live stroke object.\<close>

lemma mousemoves_effect:
  assumes "drawing w" and "stroke w = Some r" and "draws v (mode st)"
  shows "\<exists>st'. mousemoves v es (w, st) = Inr (w, st') \<and> history st' = history st
            \<and> annotations st' = annotations st \<and> mode st' = mode st
            \<and> next_ref st' = next_ref st
            \<and> heap st' = (heap st)(r := fold add_point (map pointer es) (heap st r))"
  using assms
proof (induction es arbitrary: st)
  case Nil
  then show ?case by simp
next
  case (Cons e es)
  let ?st1 = "redraw v (points_push r (pointer e) st)"
  have step: "mousemove v w e st = Inr (w, ?st1)"
    using Cons.prems by (simp add: mousemove_def)
  have "draws v (mode ?st1)"
    using Cons.prems by simp
  from Cons.IH [OF Cons.prems(1,2) this] obtain st' where
    r: "mousemoves v es (w, ?st1) = Inr (w, st')" "history st' = history ?st1"
       "annotations st' = annotations ?st1" "mode st' = mode ?st1"
       "next_ref st' = next_ref ?st1"
       "heap st' = (heap ?st1)(r := fold add_point (map pointer es) (heap ?st1 r))"
    by blast
  show ?case
    using r step by (simp add: fun_eq_iff)
qed

lemma points_fold_add_point:
  "points (fold add_point ps (StrokeA i qs wd c)) = qs @ ps"
  by (induction ps arbitrary: qs) simp_all

section \<open>Undo is the inverse of one edit\<close>

text \<open>
  Claim C1. Let \<open>S\<close> be the annotation sequence of any state. An edit takes a snapshot
  of \<open>S\<close> with \<open>pushHistory\<close> and then changes the store: the click listener appends a
  text annotation; the mousedown listener begins a stroke, and any number of mousemove
  events append points to that stroke object in place. After the edit, \<open>undo\<close> leaves
  an annotation sequence structurally equal to \<open>S\<close>. The run of mousemove events
  returns (it does not raise), the live stroke object does hold every appended point,
  and none of them shows in the restored sequence. This holds for each of the three
  texts of the program.
\<close>

theorem undo_inverts_edit:
  "(mode st = TextMode \<and> prompt_text e = Some t \<and> t \<noteq> [] \<longrightarrow>
      ann_vals (undo v (click v w e st)) = ann_vals st) \<and>
   (draws v (mode st) \<longrightarrow>
      (\<exists>w' st' r. mousemoves v es (mousedown v w e st) = Inr (w', st')
          \<and> stroke w' = Some r
          \<and> points (heap st' r) = (if v = AppSecond then [] else [pointer e]) @ map pointer es
          \<and> ann_vals (undo v st') = ann_vals st))"
proof (intro conjI impI)
  assume a: "mode st = TextMode \<and> prompt_text e = Some t \<and> t \<noteq> []"
  show "ann_vals (undo v (click v w e st)) = ann_vals st"
    by (rule undo_restores) (use a in \<open>simp_all add: click_effect pushHistory_next_ref\<close>)
next
  assume d: "draws v (mode st)"
  let ?r = "next_ref (pushHistory st)"
  let ?w = "fst (mousedown v w e st)" and ?s = "snd (mousedown v w e st)"
  have w: "drawing ?w" "stroke ?w = Some ?r"
    by (simp_all add: mousedown_effect [OF d])
  have m: "draws v (mode ?s)"
    by (simp add: mousedown_effect [OF d] d)
  from mousemoves_effect [OF w m, of es] obtain st' where
    r: "mousemoves v es (?w, ?s) = Inr (?w, st')" "history st' = history ?s"
       "heap st' = (heap ?s)(?r := fold add_point (map pointer es) (heap ?s ?r))"
    by blast
  have "points (heap st' ?r) = (if v = AppSecond then [] else [pointer e]) @ map pointer es"
    by (simp add: r mousedown_effect [OF d] points_fold_add_point)
  moreover have "ann_vals (undo v st') = ann_vals st"
    by (rule undo_restores) (simp_all add: r mousedown_effect [OF d] pushHistory_next_ref)
  ultimately show "\<exists>w' st' r. mousemoves v es (mousedown v w e st) = Inr (w', st')
      \<and> stroke w' = Some r
      \<and> points (heap st' r) = (if v = AppSecond then [] else [pointer e]) @ map pointer es
      \<and> ann_vals (undo v st') = ann_vals st"
    using r(1) w(2) by (intro exI [of _ ?w] exI [of _ st'] exI [of _ ?r]) simp
qed

theorem undo_inverts_edit_witness:
  "(mode sample_state = TextMode \<and> prompt_text sample_event = Some ''Hi'' \<and> ''Hi'' \<noteq> []
      \<and> ann_vals (undo App (click App (wire 0) sample_event sample_state)) =
          [TextA 0 50 50 ''A'' (Some 18) None]) \<and>
   (draws App (mode (sample_state\<lparr>mode := DrawMode\<rparr>))
      \<and> (\<exists>w' st' r.
            mousemoves App [sample_event, sample_event]
              (mousedown App (wire 0) sample_event (sample_state\<lparr>mode := DrawMode\<rparr>)) =
              Inr (w', st')
            \<and> stroke w' = Some r
            \<and> points (heap st' r) = [(50, 50), (50, 50), (50, 50)]
            \<and> ann_vals (undo App st') = [TextA 0 50 50 ''A'' (Some 18) None]))"
  using undo_inverts_edit [of sample_state sample_event "''Hi''" App "wire 0" "[]"]
    undo_inverts_edit [of "sample_state\<lparr>mode := DrawMode\<rparr>" sample_event "''Hi''" App "wire 0"
      "[sample_event, sample_event]"]
  by (simp add: sample_state_def sample_event_def draws_def ann_vals_def pointer_def)


section \<open>Export coordinates\<close>

lemma savePdf_loop_append:
  "savePdf_loop v doc ps (as @ bs) =
     (case savePdf_loop v doc ps as of Inl err \<Rightarrow> Inl err
      | Inr ops \<Rightarrow> (case savePdf_loop v doc ps bs of Inl err \<Rightarrow> Inl err
                    | Inr rest \<Rightarrow> Inr (ops @ rest)))"
  by (induction as) (simp_all split: sum.splits)

text \<open>What a finished export has drawn is the concatenation, in the order of the
  annotation sequence, of what each turn of the loop has drawn.\<close>

lemma savePdf_loop_concat:
  "savePdf_loop v doc ps as = Inr ops \<Longrightarrow>
     ops = concat (map (\<lambda>a. projr (savePdf_body v doc ps a)) as)"
  by (induction as arbitrary: ops) (auto split: sum.splits)

lemma savePdf_ops_concat:
  assumes "savePdf v load st = Inr (Downloaded ops)"
  shows "\<exists>b doc. pdfBytes st = Some b \<and> load b = Inr doc
           \<and> ops = concat (map (\<lambda>a. projr (savePdf_body v doc (pages st) a)) (ann_vals st))"
  using assms
  by (auto simp: savePdf_def ann_vals_def split: option.splits sum.splits
      dest: savePdf_loop_concat)

text \<open>The export of a session whose annotation sequence has the annotation \<open>a\<close> between
  \<open>as\<close> and \<open>bs\<close>: it raises what the turns for \<open>as\<close> or \<open>bs\<close> raise, and otherwise
  downloads their drawing calls with those of \<open>a\<close> in between.\<close>

lemma savePdf_split:
  assumes "pdfBytes st = Some b" and "load b = Inr doc"
    and "ann_vals st = as @ a # bs" and "savePdf_body v doc (pages st) a = Inr mid"
  shows "savePdf v load st =
           (case savePdf_loop v doc (pages st) as of Inl err \<Rightarrow> Inl err
            | Inr pre \<Rightarrow>
                (case savePdf_loop v doc (pages st) bs of Inl err \<Rightarrow> Inl err
                 | Inr post \<Rightarrow> Inr (Downloaded (pre @ mid @ post))))"
proof -
  have "map (heap st) (annotations st) = as @ a # bs"
    using assms(3) by (simp add: ann_vals_def)
  then show ?thesis
    using assms(1,2,4) by (simp add: savePdf_def savePdf_loop_append split: sum.splits)
qed

text \<open>
  Claim C2. Let the annotation sequence of a loaded session hold a stroke on a page that
  the document reports with physical size \<open>(W, H)\<close> and whose overlay canvas has pixel
  size \<open>(pw, ph)\<close>. For that stroke \<^verbatim>\<open>savePdf\<close> draws one line per pair of consecutive
  stroke points, each point \<open>(px, py)\<close> of such a pair at
  \<open>(px * (W / pw), H - py * (H / ph))\<close>; the downloaded document holds these lines
  between the drawing calls of the annotations before and after the stroke, unless one
  of those raises. With pixel size \<open>(900, 1400)\<close> and physical size \<open>(612, 792)\<close>, the
  export of a session holding just the stroke from pixel \<open>(0, 0)\<close> to pixel
  \<open>(900, 1400)\<close> is the one line from \<open>(0, 792)\<close> to \<open>(612, 0)\<close>.
\<close>

theorem stroke_export_coordinates:
  assumes "pdfBytes st = Some b" and "load b = Inr doc"
    and "ann_vals st = as @ StrokeA i pts w c # bs"
    and "doc i = GetPage W H" and "i < length (pages st)"
    and "anno_width (pages st ! i) = pw" and "anno_height (pages st ! i) = ph"
    and "lines = map (\<lambda>(p, q). DrawLine i (fst p * (W / pw), H - snd p * (H / ph))
                                          (fst q * (W / pw), H - snd q * (H / ph))
                                          (if v = AppSecond then 2 else num_or w 2) (RGB 0 1 0))
                     (segments pts)"
  shows "savePdf_body v doc (pages st) (StrokeA i pts w c) = Inr lines
       \<and> savePdf v load st =
           (case savePdf_loop v doc (pages st) as of Inl err \<Rightarrow> Inl err
            | Inr pre \<Rightarrow>
                (case savePdf_loop v doc (pages st) bs of Inl err \<Rightarrow> Inl err
                 | Inr post \<Rightarrow> Inr (Downloaded (pre @ lines @ post))))
       \<and> (pw = 900 \<and> ph = 1400 \<and> W = 612 \<and> H = 792 \<and> pts = [(0, 0), (900, 1400)]
            \<and> as = [] \<and> bs = [] \<longrightarrow>
          savePdf v load st =
            Inr (Downloaded [DrawLine i (0, 792) (612, 0)
                               (if v = AppSecond then 2 else num_or w 2) (RGB 0 1 0)]))"
proof -
  have body: "savePdf_body v doc (pages st) (StrokeA i pts w c) = Inr lines"
    using assms(4-8) by (simp add: savePdf_body_def Let_def)
  note whole = savePdf_split [where load = load and v = v, OF assms(1,2,3) body]
  have "savePdf v load st =
            Inr (Downloaded [DrawLine i (0, 792) (612, 0)
                               (if v = AppSecond then 2 else num_or w 2) (RGB 0 1 0)])"
    if "pw = 900 \<and> ph = 1400 \<and> W = 612 \<and> H = 792 \<and> pts = [(0, 0), (900, 1400)]
            \<and> as = [] \<and> bs = []"
    using whole that assms(8) by simp
  then show ?thesis
    using body whole by blast
qed

theorem stroke_export_coordinates_witness:
  "pdfBytes export_state = Some [37, 80, 68, 70]
   \<and> ann_vals export_state =
       [TextA 0 50 100 ''Hi'' (Some 18) None] @
       StrokeA 0 [(0, 0), (900, 1400), (450, 700)] (Some 2) None # []
   \<and> letter_doc 1 0 = GetPage 612 792 \<and> 0 < length (pages export_state)
   \<and> anno_width (pages export_state ! 0) = 900 \<and> anno_height (pages export_state ! 0) = 1400
   \<and> savePdf App (\<lambda>b. Inr (letter_doc 1)) export_state =
       Inr (Downloaded [DrawText 0 ''Hi'' 34 (792 - 100 * (792 / 1400) - 18) 18 (RGB 1 1 0),
                        DrawLine 0 (0, 792) (612, 0) 2 (RGB 0 1 0),
                        DrawLine 0 (612, 0) (306, 396) 2 (RGB 0 1 0)])"
proof -
  have b: "pdfBytes export_state = Some [37, 80, 68, 70]"
    by (simp add: export_state_def)
  have a: "ann_vals export_state =
       [TextA 0 50 100 ''Hi'' (Some 18) None] @
       StrokeA 0 [(0, 0), (900, 1400), (450, 700)] (Some 2) None # []"
    by (simp add: export_state_def ann_vals_def)
  have d: "letter_doc 1 0 = GetPage 612 792"
    by (simp add: letter_doc_def)
  have p: "0 < length (pages export_state)" "anno_width (pages export_state ! 0) = 900"
      "anno_height (pages export_state ! 0) = 1400"
    by (simp_all add: export_state_def)
  have pre: "savePdf_loop App (letter_doc 1) (pages export_state)
               [TextA 0 50 100 ''Hi'' (Some 18) None] =
             Inr [DrawText 0 ''Hi'' 34 (792 - 100 * (792 / 1400) - 18) 18 (RGB 1 1 0)]"
    by (simp add: savePdf_body_def letter_doc_def export_state_def num_or_def)
  show ?thesis
    using stroke_export_coordinates [where load = "\<lambda>b. Inr (letter_doc 1)" and doc = "letter_doc 1" and v = App,
        OF b refl a d p refl] b a d p pre
    by (simp add: num_or_def)
qed

text \<open>
  Claim C3. The font size of a text annotation is the value of \<^verbatim>\<open>a.size || 18\<close>: its
  \<^verbatim>\<open>size\<close> property, or 18 where that is missing or zero (no listener stores zero), and
  the constant 18 in \<open>AppSecond\<close>. Let the annotation sequence of a loaded session hold
  a text annotation anchored at pixel height \<open>py\<close> with font size \<open>fs\<close>, on a page of
  physical height \<open>H\<close> and pixel height \<open>ph\<close>. For it \<^verbatim>\<open>savePdf\<close> draws the text at
  \<open>y = H - py * (H / ph) - fs\<close> with size \<open>fs\<close>: the axis is flipped and the font size
  is subtracted as well; the downloaded document holds this call between the drawing
  calls of the annotations before and after it, unless one of those raises. For a
  stored size \<open>s\<close> other than zero, \<open>fs\<close> is \<open>s\<close>. The export of a session holding
  just a text at pixel \<open>y = 100\<close> with size 18, on a page of pixel height 1400 and
  physical height 792, draws it at \<open>792 - 100 * (792 / 1400) - 18\<close>.
\<close>

theorem text_export_offset:
  assumes "pdfBytes st = Some b" and "load b = Inr doc"
    and "ann_vals st = as @ TextA i px py t sz c # bs"
    and "doc i = GetPage W H" and "i < length (pages st)"
    and "anno_width (pages st ! i) = pw" and "anno_height (pages st ! i) = ph"
    and "fs = (if v = AppSecond then 18 else num_or sz 18)"
  shows "savePdf_body v doc (pages st) (TextA i px py t sz c) =
           Inr [DrawText i t (px * (W / pw)) (H - py * (H / ph) - fs) fs (RGB 1 1 0)]
       \<and> savePdf v load st =
           (case savePdf_loop v doc (pages st) as of Inl err \<Rightarrow> Inl err
            | Inr pre \<Rightarrow>
                (case savePdf_loop v doc (pages st) bs of Inl err \<Rightarrow> Inl err
                 | Inr post \<Rightarrow>
                     Inr (Downloaded
                            (pre @ [DrawText i t (px * (W / pw)) (H - py * (H / ph) - fs) fs
                                      (RGB 1 1 0)] @ post))))
       \<and> (\<forall>s. sz = Some s \<and> s \<noteq> 0 \<and> v \<noteq> AppSecond \<longrightarrow> fs = s)
       \<and> (py = 100 \<and> sz = Some 18 \<and> ph = 1400 \<and> H = 792 \<and> as = [] \<and> bs = [] \<longrightarrow>
            savePdf v load st =
              Inr (Downloaded [DrawText i t (px * (W / pw)) (792 - 100 * (792 / 1400) - 18) 18
                                 (RGB 1 1 0)]))"
proof -
  have body: "savePdf_body v doc (pages st) (TextA i px py t sz c) =
           Inr [DrawText i t (px * (W / pw)) (H - py * (H / ph) - fs) fs (RGB 1 1 0)]"
    using assms(4-8) by (simp add: savePdf_body_def Let_def)
  note whole = savePdf_split [where load = load and v = v, OF assms(1,2,3) body]
  have s: "\<forall>s. sz = Some s \<and> s \<noteq> 0 \<and> v \<noteq> AppSecond \<longrightarrow> fs = s"
    using assms(8) by (simp add: num_or_def)
  have "savePdf v load st =
              Inr (Downloaded [DrawText i t (px * (W / pw)) (792 - 100 * (792 / 1400) - 18) 18
                                 (RGB 1 1 0)])"
    if "py = 100 \<and> sz = Some 18 \<and> ph = 1400 \<and> H = 792 \<and> as = [] \<and> bs = []"
    using whole that assms(8) by (simp add: num_or_def)
  then show ?thesis
    using body whole s by blast
qed

theorem text_export_offset_witness:
  "pdfBytes export_state = Some [37, 80, 68, 70]
   \<and> ann_vals export_state =
       [] @ TextA 0 50 100 ''Hi'' (Some 18) None #
       [StrokeA 0 [(0, 0), (900, 1400), (450, 700)] (Some 2) None]
   \<and> letter_doc 1 0 = GetPage 612 792 \<and> 0 < length (pages export_state)
   \<and> anno_width (pages export_state ! 0) = 900 \<and> anno_height (pages export_state ! 0) = 1400
   \<and> (18::real) = (if App = AppSecond then 18 else num_or (Some 18) 18)
   \<and> savePdf App (\<lambda>b. Inr (letter_doc 1)) export_state =
       Inr (Downloaded [DrawText 0 ''Hi'' 34 (792 - 100 * (792 / 1400) - 18) 18 (RGB 1 1 0),
                        DrawLine 0 (0, 792) (612, 0) 2 (RGB 0 1 0),
                        DrawLine 0 (612, 0) (306, 396) 2 (RGB 0 1 0)])
   \<and> savePdf App (\<lambda>b. Inr (letter_doc 1))
        (export_state\<lparr>annotations := [0]\<rparr>) =
       Inr (Downloaded [DrawText 0 ''Hi'' 34 (792 - 100 * (792 / 1400) - 18) 18 (RGB 1 1 0)])"
proof -
  have b: "pdfBytes export_state = Some [37, 80, 68, 70]"
      "pdfBytes (export_state\<lparr>annotations := [0]\<rparr>) = Some [37, 80, 68, 70]"
    by (simp_all add: export_state_def)
  have a: "ann_vals export_state =
       [] @ TextA 0 50 100 ''Hi'' (Some 18) None #
       [StrokeA 0 [(0, 0), (900, 1400), (450, 700)] (Some 2) None]"
    by (simp add: export_state_def ann_vals_def)
  have a1: "ann_vals (export_state\<lparr>annotations := [0]\<rparr>) =
       [] @ TextA 0 50 100 ''Hi'' (Some 18) None # []"
    by (simp add: export_state_def ann_vals_def)
  have d: "letter_doc 1 0 = GetPage 612 792"
    by (simp add: letter_doc_def)
  have p: "0 < length (pages export_state)" "anno_width (pages export_state ! 0) = 900"
      "anno_height (pages export_state ! 0) = 1400"
    by (simp_all add: export_state_def)
  have p1: "0 < length (pages (export_state\<lparr>annotations := [0]\<rparr>))"
      "anno_width (pages (export_state\<lparr>annotations := [0]\<rparr>) ! 0) = 900"
      "anno_height (pages (export_state\<lparr>annotations := [0]\<rparr>) ! 0) = 1400"
    by (simp_all add: export_state_def)
  have f: "(18::real) = (if App = AppSecond then 18 else num_or (Some 18) 18)"
    by (simp add: num_or_def)
  have post: "savePdf_loop App (letter_doc 1) (pages export_state)
               [StrokeA 0 [(0, 0), (900, 1400), (450, 700)] (Some 2) None] =
             Inr [DrawLine 0 (0, 792) (612, 0) 2 (RGB 0 1 0),
                  DrawLine 0 (612, 0) (306, 396) 2 (RGB 0 1 0)]"
    by (simp add: savePdf_body_def letter_doc_def export_state_def num_or_def)
  show ?thesis
    using text_export_offset [where load = "\<lambda>b. Inr (letter_doc 1)" and doc = "letter_doc 1",
        OF b(1) refl a d p f]
      text_export_offset [where load = "\<lambda>b. Inr (letter_doc 1)" and doc = "letter_doc 1",
        OF b(2) refl a1 d p1 f] b a d p f post
    by simp
qed

section \<open>Export colours\<close>

lemma draw_annotation_fixed: "\<forall>op\<in>set (draw_annotation v wd ht c a). fixed_colour op"
  by (cases a) (auto simp: fixed_colour_def Let_def)

lemma savePdf_body_fixed:
  "savePdf_body v doc ps a = Inr ops \<Longrightarrow> \<forall>op\<in>set ops. fixed_colour op"
  using draw_annotation_fixed
  by (auto simp: savePdf_body_def split: page_lookup.splits if_splits)

lemma savePdf_loop_fixed:
  "savePdf_loop v doc ps as = Inr ops \<Longrightarrow> \<forall>op\<in>set ops. fixed_colour op"
proof (induction as arbitrary: ops)
  case Nil
  then show ?case by simp
next
  case (Cons a as)
  then show ?case
    using savePdf_body_fixed [of v doc ps a] by (fastforce split: sum.splits)
qed

text \<open>
  Claim C10. The export never reads the colour stored in an annotation: a text
  annotation becomes one \<^verbatim>\<open>drawText\<close> in \<^verbatim>\<open>rgb(1, 1, 0)\<close> and a stroke becomes
  \<^verbatim>\<open>drawLine\<close> calls in \<^verbatim>\<open>rgb(0, 1, 0)\<close>, whatever its colour property is, and every
  drawing call of a finished \<^verbatim>\<open>savePdf\<close> has the fixed colour of its kind. A stroke
  begun in eraser mode (in \<open>Part0\<close>) is stored with colour \<^verbatim>\<open>"#FFFFFF"\<close> and painted on the
  overlay with that stroke style, but exported as green lines like every other stroke.
\<close>

theorem export_colours_fixed:
  "draw_annotation v wd ht cv (TextA i x y t s c) =
     [DrawText i t (x * (wd / anno_width cv))
        (ht - y * (ht / anno_height cv) - (if v = AppSecond then 18 else num_or s 18))
        (if v = AppSecond then 18 else num_or s 18) (RGB 1 1 0)]
   \<and> draw_annotation v wd ht cv (StrokeA i pts lw c) =
       map (\<lambda>(p, q). DrawLine i
                       (fst p * (wd / anno_width cv), ht - snd p * (ht / anno_height cv))
                       (fst q * (wd / anno_width cv), ht - snd q * (ht / anno_height cv))
                       (if v = AppSecond then 2 else num_or lw 2) (RGB 0 1 0))
           (segments pts)
   \<and> (\<forall>ops. savePdf v load st = Inr (Downloaded ops) \<longrightarrow> (\<forall>op\<in>set ops. fixed_colour op))
   \<and> (mode st = EraserMode \<longrightarrow>
        (let st' = snd (mousedown Part0 w e st); a = heap st' (last (annotations st'))
         in a = StrokeA (w_pageIndex w) [pointer e] (Some (parsed_or (lineWidthInput e) 2))
                  (Some ''#FFFFFF'')
            \<and> overlay_op Part0 a =
                StrokePath ''#FFFFFF'' (Some (num_or (Some (parsed_or (lineWidthInput e) 2)) 2))
                  (path_of [pointer e])))"
proof (intro conjI allI impI)
  fix ops assume "savePdf v load st = Inr (Downloaded ops)"
  then show "\<forall>op\<in>set ops. fixed_colour op"
    by (auto simp: savePdf_def split: option.splits sum.splits dest: savePdf_loop_fixed)
next
  assume e: "mode st = EraserMode"
  then have d: "draws Part0 (mode st)"
    by (simp add: draws_def)
  show "let st' = snd (mousedown Part0 w e st); a = heap st' (last (annotations st'))
         in a = StrokeA (w_pageIndex w) [pointer e] (Some (parsed_or (lineWidthInput e) 2))
                  (Some ''#FFFFFF'')
            \<and> overlay_op Part0 a =
                StrokePath ''#FFFFFF'' (Some (num_or (Some (parsed_or (lineWidthInput e) 2)) 2))
                  (path_of [pointer e])"
    using e by (simp add: Let_def mousedown_effect [OF d] str_or_def)
qed (simp_all add: Let_def)

theorem export_colours_fixed_witness:
  "savePdf Part0 (\<lambda>b. Inr (letter_doc 1)) erased_state =
     Inr (Downloaded [DrawText 0 ''Hi'' 34 (792 - 100 * (792 / 1400) - 24) 24 (RGB 1 1 0),
                      DrawLine 0 (0, 792) (612, 0) 3 (RGB 0 1 0)])
   \<and> fixed_colour (DrawText 0 ''Hi'' 34 (792 - 100 * (792 / 1400) - 24) 24 (RGB 1 1 0))
   \<and> fixed_colour (DrawLine 0 (0, 792) (612, 0) 3 (RGB 0 1 0))
   \<and> mode erased_state = EraserMode
   \<and> (let st' = snd (mousedown Part0 (wire 0) sample_event erased_state)
      in heap st' (last (annotations st')) = StrokeA 0 [(50, 50)] (Some 3) (Some ''#FFFFFF''))"
proof -
  have s: "savePdf Part0 (\<lambda>b. Inr (letter_doc 1)) erased_state =
     Inr (Downloaded [DrawText 0 ''Hi'' 34 (792 - 100 * (792 / 1400) - 24) 24 (RGB 1 1 0),
                      DrawLine 0 (0, 792) (612, 0) 3 (RGB 0 1 0)])"
    by (simp add: savePdf_def erased_state_def savePdf_body_def letter_doc_def num_or_def)
  have m: "mode erased_state = EraserMode"
    by (simp add: erased_state_def)
  have p: "pointer sample_event = (50, 50)" "parsed_or (lineWidthInput sample_event) 2 = 3"
    by (simp_all add: pointer_def sample_event_def parsed_or_def)
  show ?thesis
    using export_colours_fixed [of Part0 612 792
        "\<lparr>anno_width = 900, anno_height = 1400, surface = []\<rparr>" 0 0 0 "[]" None None
        "[]" None "\<lambda>b. Inr (letter_doc 1)" erased_state "wire 0" sample_event] s m p
    by (simp add: Let_def wire_def)
qed

section \<open>Annotations on a page that does not exist\<close>

lemma redraw_loop_length [simp]: "length (redraw_loop v as ps) = length ps"
  by (induction as arbitrary: ps) simp_all

lemma redraw_loop_append:
  "redraw_loop v (as @ bs) ps = redraw_loop v bs (redraw_loop v as ps)"
  by (induction as arbitrary: ps) simp_all

text \<open>Repaint passes over an annotation whose page index is beyond \<^verbatim>\<open>pages\<close>, in each
  of the three texts.\<close>

lemma redraw_loop_skips:
  "length ps \<le> pageIndex a \<Longrightarrow> redraw_loop v (as @ a # bs) ps = redraw_loop v (as @ bs) ps"
  by (simp add: redraw_loop_append)

text \<open>The export of \<open>App\<close> and \<open>Part0\<close> passes over such an annotation as long as
  \<^verbatim>\<open>getPage\<close> does not raise for its index.\<close>

lemma savePdf_loop_skips:
  assumes "v \<noteq> AppSecond"
    and "doc (pageIndex a) = GetPageUndefined \<or>
         (length ps \<le> pageIndex a \<and> (\<forall>err. doc (pageIndex a) \<noteq> GetPageThrows err))"
  shows "savePdf_loop v doc ps (as @ a # bs) = savePdf_loop v doc ps (as @ bs)"
proof -
  have "savePdf_body v doc ps a = Inr []"
    using assms by (auto simp: savePdf_body_def split: page_lookup.splits)
  then show ?thesis
    by (simp add: savePdf_loop_append split: sum.splits)
qed

lemma savePdf_first_skips_dangling:
  "savePdf App (\<lambda>b. Inr (letter_doc 3)) dangling_state =
     Inr (Downloaded [DrawText 0 ''Hi'' 34 (792 - 50 * (792 / 1400) - 18) 18 (RGB 1 1 0)])"
  by (simp add: savePdf_def dangling_state_def savePdf_body_def letter_doc_def num_or_def)

text \<open>
  Claim C4. An annotation whose page index names no page is to be skipped by repaint and
  by export, without an error. Repaint does so, and so does the export of \<open>App\<close> and
  \<open>Part0\<close> when \<^verbatim>\<open>getPage\<close> returns a falsy value (see the lemmas above). The export
  of \<open>AppSecond\<close> has no such test: on a three-page session whose first annotation names
  page 5 it raises a TypeError on a document whose \<^verbatim>\<open>getPage(5)\<close> is falsy, and
  draws nothing for the second annotation either.
\<close>

theorem second_export_raises_on_dangling_page:
  "savePdf AppSecond (\<lambda>b. Inr (letter_doc 3)) dangling_state = Inl TypeError"
  by (simp add: savePdf_def dangling_state_def savePdf_body_def letter_doc_def)

text \<open>No behaviour of \<^verbatim>\<open>getPage(5)\<close> avoids the error.\<close>

lemma second_export_raises_for_any_document:
  "\<exists>err. savePdf AppSecond (\<lambda>b. Inr doc) dangling_state = Inl err"
  by (cases "doc 5") (simp_all add: savePdf_def dangling_state_def savePdf_body_def)

section \<open>A load that fails\<close>

text \<open>
  Claim C5, as stated: a load that fails leaves the annotations, the history and the page
  views of the previous session as they were. It does not: \<^verbatim>\<open>loadFile\<close> empties
  \<^verbatim>\<open>annotations\<close> and \<^verbatim>\<open>history\<close> before it calls \<^verbatim>\<open>renderPdf\<close>, which empties
  \<^verbatim>\<open>pages\<close> before it opens the file. On the sample session, a file that the rasteriser
  rejects is reported by \<^verbatim>\<open>alert\<close> and leaves all three empty.
\<close>

theorem failed_load_clears_session:
  "snd (loadFile App broken_file [1, 2, 3] sample_state) =
     Alerted (External ''Invalid PDF structure.'')
   \<and> annotations sample_state \<noteq> []
   \<and> annotations (fst (loadFile App broken_file [1, 2, 3] sample_state)) = []
   \<and> history sample_state \<noteq> []
   \<and> history (fst (loadFile App broken_file [1, 2, 3] sample_state)) = []
   \<and> pages sample_state \<noteq> []
   \<and> pages (fst (loadFile App broken_file [1, 2, 3] sample_state)) = []"
  by (simp add: loadFile_def renderPdf_def broken_file_def sample_state_def)

text \<open>
  Claim C5, amended: after a load that fails, the byte buffer is the new file's, the
  annotations and the history are empty, and the page views are those of the pages of
  the new file that were rendered before the failure (none when the file could not be
  opened). \<open>App\<close> and \<open>Part0\<close> catch the error and report it; in \<open>AppSecond\<close> it
  propagates.
\<close>

theorem failed_load_resets_session:
  "snd (loadFile v getDocument b st) \<noteq> Loaded \<longrightarrow>
     (let st' = fst (loadFile v getDocument b st) in
        annotations st' = [] \<and> history st' = [] \<and> pdfBytes st' = Some b
        \<and> pages st' = (case getDocument b of Inl err \<Rightarrow> [] | Inr ls \<Rightarrow> fst (render_pages ls []))
        \<and> (\<exists>err. snd (loadFile v getDocument b st) =
                    (if v = AppSecond then Uncaught err else Alerted err)))"
  by (auto simp: loadFile_def renderPdf_def Let_def split: sum.splits prod.splits option.splits)

theorem failed_load_resets_session_witness:
  "snd (loadFile App broken_file [1, 2, 3] sample_state) \<noteq> Loaded
   \<and> annotations (fst (loadFile App broken_file [1, 2, 3] sample_state)) = []
   \<and> history (fst (loadFile App broken_file [1, 2, 3] sample_state)) = []
   \<and> pdfBytes (fst (loadFile App broken_file [1, 2, 3] sample_state)) = Some [1, 2, 3]
   \<and> pages (fst (loadFile App broken_file [1, 2, 3] sample_state)) = []"
proof -
  have f: "snd (loadFile App broken_file [1, 2, 3] sample_state) \<noteq> Loaded"
    by (simp add: loadFile_def renderPdf_def broken_file_def)
  have g: "broken_file [1, 2, 3] = Inl (External ''Invalid PDF structure.'')"
    by (simp add: broken_file_def)
  show ?thesis
    using failed_load_resets_session [of App broken_file "[1, 2, 3]" sample_state] f g
    by (simp add: Let_def)
qed

section \<open>Beginning a stroke\<close>

text \<open>
  Claim C8, as stated: when the mousedown listener has run in draw mode, the stroke it
  appended holds exactly one point. In \<open>AppSecond\<close> the listener appends the stroke with
  an empty \<^verbatim>\<open>points\<close> array and returns; the first point only arrives with the first
  mousemove.
\<close>

theorem second_stroke_begins_empty:
  "draws AppSecond (mode (sample_state\<lparr>mode := DrawMode\<rparr>)) \<and>
   annotations (snd (mousedown AppSecond (wire 0) sample_event
                       (sample_state\<lparr>mode := DrawMode\<rparr>))) = [0, 2] \<and>
   heap (snd (mousedown AppSecond (wire 0) sample_event
                (sample_state\<lparr>mode := DrawMode\<rparr>))) 2 = StrokeA 0 [] None None \<and>
   length (points (heap (snd (mousedown AppSecond (wire 0) sample_event
                                (sample_state\<lparr>mode := DrawMode\<rparr>))) 2)) \<noteq> 1"
proof -
  have d: "draws AppSecond (mode (sample_state\<lparr>mode := DrawMode\<rparr>))"
    by (simp add: draws_def)
  have n: "next_ref (pushHistory (sample_state\<lparr>mode := DrawMode\<rparr>)) = 2"
    by (simp add: pushHistory_next_ref sample_state_def)
  show ?thesis
    using d by (simp add: mousedown_effect [OF d] n wire_def) (simp add: sample_state_def)
qed

text \<open>
  Claim C8, amended: when the mousedown listener has run in a drawing mode, it has
  appended one new stroke annotation of its page to the store and made it the live
  stroke; in \<open>App\<close> and \<open>Part0\<close> that stroke holds exactly one point, the pointer
  position, and in \<open>AppSecond\<close> it holds no point.
\<close>

theorem begin_stroke_points:
  "draws v (mode st) \<longrightarrow>
     (let w' = fst (mousedown v w e st); st' = snd (mousedown v w e st);
          r = last (annotations st')
      in annotations st' = annotations st @ [r]
        \<and> stroke w' = Some r \<and> drawing w'
        \<and> pageIndex (heap st' r) = w_pageIndex w
        \<and> points (heap st' r) = (if v = AppSecond then [] else [pointer e]))"
  by (simp add: mousedown_effect Let_def)

theorem begin_stroke_points_witness:
  "draws App (mode (sample_state\<lparr>mode := DrawMode\<rparr>)) \<and>
     (let st' = snd (mousedown App (wire 0) sample_event (sample_state\<lparr>mode := DrawMode\<rparr>))
      in points (heap st' (last (annotations st'))) = [(50, 50)])"
proof -
  have d: "draws App (mode (sample_state\<lparr>mode := DrawMode\<rparr>))"
    by (simp add: draws_def)
  have p: "pointer sample_event = (50, 50)"
    by (simp add: pointer_def sample_event_def)
  show ?thesis
    using d begin_stroke_points [of App "sample_state\<lparr>mode := DrawMode\<rparr>" "wire 0" sample_event]
    by (simp add: Let_def p)
qed

section \<open>A cancelled text prompt\<close>

lemma wf_ann_vals_pushHistory:
  "wf_state st \<Longrightarrow> ann_vals (pushHistory st) = ann_vals st"
  by (auto simp: wf_state_def ann_vals_def pushHistory_heap)

text \<open>
  Claim C9. In \<open>AppSecond\<close> the click listener calls \<^verbatim>\<open>pushHistory()\<close> before it asks
  for the text. When the prompt is cancelled or answered with the empty string, no
  annotation is added, yet a snapshot with the values of the current annotation sequence
  is on top of the history, which has grown by one entry (or, being full with 50
  entries, has lost its oldest one). The next \<open>undo\<close> replaces the store by that
  snapshot, structurally equal to what it replaces, and removes the entry again. (In
  \<open>App\<close> the same click changes nothing at all.)
\<close>

theorem cancelled_prompt_consumes_slot:
  assumes "mode st = TextMode" and "prompt_text e = None \<or> prompt_text e = Some []"
  shows "annotations (click AppSecond w e st) = annotations st
       \<and> (wf_state st \<longrightarrow> ann_vals (click AppSecond w e st) = ann_vals st)
       \<and> history (click AppSecond w e st) \<noteq> []
       \<and> map (heap (click AppSecond w e st)) (last (history (click AppSecond w e st))) =
           ann_vals st
       \<and> length (history (click AppSecond w e st)) =
           (if length (history st) < 50 then Suc (length (history st))
            else length (history st))
       \<and> ann_vals (undo AppSecond (click AppSecond w e st)) = ann_vals st
       \<and> history (undo AppSecond (click AppSecond w e st)) =
           (if length (history st) < 50 then history st else tl (history st))
       \<and> click App w e st = st"
proof -
  have c: "click AppSecond w e st = pushHistory st"
    using assms by (auto simp: click_def Let_def)
  have u: "history (undo AppSecond (pushHistory st)) = butlast (history (pushHistory st))"
    by (simp add: undo_def pushHistory_history_nonempty)
  have a: "click App w e st = st"
    using assms by (auto simp: click_def)
  show ?thesis
    unfolding c
    by (simp add: wf_ann_vals_pushHistory pushHistory_history_nonempty pushHistory_snapshot
        pushHistory_length u pushHistory_butlast undo_restores a)
qed

theorem cancelled_prompt_consumes_slot_witness:
  "mode sample_state = TextMode \<and> prompt_text (sample_event\<lparr>prompt_text := None\<rparr>) = None
   \<and> ann_vals sample_state = [TextA 0 50 50 ''A'' (Some 18) None]
   \<and> ann_vals (click AppSecond (wire 0) (sample_event\<lparr>prompt_text := None\<rparr>) sample_state) =
       ann_vals sample_state
   \<and> length (history sample_state) = 1
   \<and> length (history (click AppSecond (wire 0) (sample_event\<lparr>prompt_text := None\<rparr>)
                        sample_state)) = 2
   \<and> ann_vals (undo AppSecond (click AppSecond (wire 0) (sample_event\<lparr>prompt_text := None\<rparr>)
                                  sample_state)) = ann_vals sample_state"
proof -
  have m: "mode sample_state = TextMode"
    by (simp add: sample_state_def)
  have p: "prompt_text (sample_event\<lparr>prompt_text := None\<rparr>) = None \<or>
           prompt_text (sample_event\<lparr>prompt_text := None\<rparr>) = Some []"
    by simp
  have wf: "wf_state sample_state"
    by (simp add: sample_state_def wf_state_def)
  have a: "ann_vals sample_state = [TextA 0 50 50 ''A'' (Some 18) None]"
    by (simp add: sample_state_def ann_vals_def)
  have l: "length (history sample_state) = 1"
    by (simp add: sample_state_def)
  show ?thesis
    using cancelled_prompt_consumes_slot [OF m p, of "wire 0"] m wf a l by simp
qed


section \<open>The bounded history\<close>

lemma map_bounded_push: "map f (bounded_push h c) = bounded_push (map f h) (f c)"
  by (simp add: bounded_push_def Let_def map_tl)

lemma length_bounded_push:
  "length (bounded_push h c) = (if length h < 50 then Suc (length h) else length h)"
  by (simp add: bounded_push_def Let_def)

lemma set_bounded_push: "set (bounded_push h c) \<subseteq> insert c (set h)"
proof -
  have "set (tl (h @ [c])) \<subseteq> set (h @ [c])"
    by (rule list.set_sel(2) [THEN subsetI]) simp
  then show ?thesis
    by (auto simp: bounded_push_def Let_def)
qed

lemma pushHistory_bounded_push:
  "history (pushHistory st) =
     bounded_push (history st) [next_ref st ..< next_ref st + length (annotations st)]"
  by (simp add: pushHistory_history bounded_push_def)

lemma foldl_bounded_push:
  "length h \<le> 50 \<Longrightarrow>
     foldl bounded_push h xs = drop (length h + length xs - 50) (h @ xs)"
proof (induction xs arbitrary: h)
  case Nil
  then show ?case by simp
next
  case (Cons x xs)
  show ?case
  proof (cases "length h < 50")
    case True
    then have b: "bounded_push h x = h @ [x]"
      by (simp add: bounded_push_def)
    have "length (h @ [x]) \<le> 50" using True by simp
    from Cons.IH [OF this] show ?thesis
      by (simp add: b)
  next
    case False
    with Cons.prems have l: "length h = 50" by simp
    then obtain y ys where h: "h = y # ys" by (cases h) auto
    have b: "bounded_push (y # ys) x = ys @ [x]"
      using l by (simp add: bounded_push_def h)
    have "length (ys @ [x]) \<le> 50" using l h by simp
    from Cons.IH [OF this] show ?thesis
      using l h by (simp add: b)
  qed
qed

lemma wf_pushHistory: "wf_state st \<Longrightarrow> wf_state (pushHistory st)"
  using set_bounded_push [of "history st" "[next_ref st ..< next_ref st + length (annotations st)]"]
  by (fastforce simp: wf_state_def pushHistory_next_ref pushHistory_bounded_push)

lemma length_hist_vals [simp]: "length (hist_vals st) = length (history st)"
  by (simp add: hist_vals_def)

lemma hist_vals_cong:
  assumes "history s' = history s" and "\<And>r. r < next_ref s \<Longrightarrow> heap s' r = heap s r"
    and "wf_state s"
  shows "hist_vals s' = hist_vals s"
  using assms by (auto simp: hist_vals_def wf_state_def)

lemma ann_vals_cong:
  assumes "annotations s' = annotations s" and "\<And>r. r < next_ref s \<Longrightarrow> heap s' r = heap s r"
    and "wf_state s"
  shows "ann_vals s' = ann_vals s"
  using assms by (auto simp: ann_vals_def wf_state_def)

lemma hist_vals_pushHistory:
  assumes "wf_state st"
  shows "hist_vals (pushHistory st) = bounded_push (hist_vals st) (ann_vals st)"
proof -
  let ?c = "[next_ref st ..< next_ref st + length (annotations st)]"
  have "heap (pushHistory st) r = heap st r" if "h \<in> set (history st)" "r \<in> set h" for h r
  proof -
    have "r < next_ref st" using assms that by (auto simp: wf_state_def)
    then show ?thesis by (simp add: pushHistory_heap)
  qed
  then have old: "map (map (heap (pushHistory st))) (history st) = hist_vals st"
    by (simp add: hist_vals_def)
  have new: "map (heap (pushHistory st)) ?c = ann_vals st"
    using pushHistory_snapshot [of st] by (simp add: pushHistory_last)
  show ?thesis
    by (simp add: hist_vals_def [of "pushHistory st"] pushHistory_bounded_push
        map_bounded_push old new)
qed

lemma click_abs:
  assumes wf: "wf_state st" and m: "mode st = TextMode"
    and p: "prompt_text e = Some t" and t: "t \<noteq> []"
  shows "wf_state (click v w e st)"
    and "mode (click v w e st) = TextMode"
    and "ann_vals (click v w e st) = ann_vals st @ [new_text v w e t]"
    and "hist_vals (click v w e st) = bounded_push (hist_vals st) (ann_vals st)"
proof -
  note ce = click_effect [OF m p t, of v w]
  have wp: "wf_state (pushHistory st)" by (rule wf_pushHistory [OF wf])
  show "wf_state (click v w e st)"
    using wp by (fastforce simp: wf_state_def ce less_Suc_eq)
  show "mode (click v w e st) = TextMode"
    using m p t by (simp add: click_def Let_def)
  have "hist_vals (click v w e st) = hist_vals (pushHistory st)"
    by (rule hist_vals_cong [OF _ _ wp]) (simp_all add: ce)
  then show "hist_vals (click v w e st) = bounded_push (hist_vals st) (ann_vals st)"
    by (simp add: hist_vals_pushHistory [OF wf])
  have "map (heap (click v w e st)) (annotations st) = ann_vals (pushHistory st)"
    using wp by (auto simp: ann_vals_def wf_state_def ce)
  then show "ann_vals (click v w e st) = ann_vals st @ [new_text v w e t]"
    by (simp add: ann_vals_def [of "click v w e st"] ce wf_ann_vals_pushHistory [OF wf])
qed

lemma undo_abs:
  assumes "wf_state st" and "history st \<noteq> []"
  shows "wf_state (undo v st)"
    and "ann_vals (undo v st) = last (hist_vals st)"
    and "hist_vals (undo v st) = butlast (hist_vals st)"
    and "mode (undo v st) = mode st"
proof -
  show "wf_state (undo v st)"
    using assms by (auto simp: wf_state_def undo_def dest: in_set_butlastD)
  show "ann_vals (undo v st) = last (hist_vals st)"
    using assms by (simp add: ann_vals_undo hist_vals_def last_map)
  show "hist_vals (undo v st) = butlast (hist_vals st)"
    using assms by (simp add: hist_vals_def undo_def map_butlast)
  show "mode (undo v st) = mode st"
    by (simp add: undo_def)
qed

lemma undo_empty: "history st = [] \<Longrightarrow> undo v st = st"
  by (simp add: undo_def)

lemma last_take: "0 < n \<Longrightarrow> n \<le> length xs \<Longrightarrow> last (take n xs) = xs ! (n - 1)"
  by (cases n) (simp_all add: take_Suc_conv_app_nth)

lemma undos_abs:
  assumes "wf_state st" and "k \<le> length (history st)"
  shows "wf_state ((undo v ^^ k) st)
       \<and> hist_vals ((undo v ^^ k) st) = take (length (history st) - k) (hist_vals st)
       \<and> (0 < k \<longrightarrow> ann_vals ((undo v ^^ k) st) = hist_vals st ! (length (history st) - k))"
  using assms(2)
proof (induction k)
  case 0
  then show ?case using assms(1) by simp
next
  case (Suc k)
  let ?s = "(undo v ^^ k) st"
  let ?l = "length (history st)"
  from Suc have ih: "wf_state ?s" "hist_vals ?s = take (?l - k) (hist_vals st)"
    by simp_all
  have "length (hist_vals ?s) = ?l - k"
    by (simp add: ih(2))
  then have ne: "history ?s \<noteq> []"
    using Suc.prems by auto
  have lt: "?l - Suc k < ?l - k" "?l - k \<le> length (hist_vals st)"
    using Suc.prems by simp_all
  have "last (take (?l - k) (hist_vals st)) = hist_vals st ! (?l - k - 1)"
    using Suc.prems by (intro last_take) simp_all
  then have "last (take (?l - k) (hist_vals st)) = hist_vals st ! (?l - Suc k)"
    by simp
  moreover have "butlast (take (?l - k) (hist_vals st)) = take (?l - Suc k) (hist_vals st)"
    using lt by (simp add: butlast_take)
  ultimately show ?case
    using undo_abs [OF ih(1) ne, of v] by (simp add: ih(2))
qed

lemma clicks_abs:
  assumes wf: "wf_state st" and m: "mode st = TextMode"
    and p: "\<forall>e\<in>set es. \<exists>t. prompt_text e = Some t \<and> t \<noteq> []"
  shows "wf_state (fold (click v w) es st)
       \<and> mode (fold (click v w) es st) = TextMode
       \<and> ann_vals (fold (click v w) es st) = ann_vals st @ texts v w es
       \<and> hist_vals (fold (click v w) es st) =
           foldl bounded_push (hist_vals st)
             (map (\<lambda>k. ann_vals st @ take k (texts v w es)) [0..<length es])"
  using p
proof (induction es rule: rev_induct)
  case Nil
  then show ?case using wf m by (simp add: texts_def)
next
  case (snoc e es)
  let ?s = "fold (click v w) es st"
  from snoc have ih: "wf_state ?s" "mode ?s = TextMode"
      "ann_vals ?s = ann_vals st @ texts v w es"
      "hist_vals ?s = foldl bounded_push (hist_vals st)
             (map (\<lambda>k. ann_vals st @ take k (texts v w es)) [0..<length es])"
    by simp_all
  from snoc.prems obtain t where t: "prompt_text e = Some t" "t \<noteq> []"
    by auto
  note c = click_abs [OF ih(1,2) t, of v w]
  have tx: "texts v w (es @ [e]) = texts v w es @ [new_text v w e t]"
    by (simp add: texts_def t)
  have len: "length (texts v w es) = length es"
    by (simp add: texts_def)
  have snaps: "map (\<lambda>k. ann_vals st @ take k (texts v w (es @ [e]))) [0..<length (es @ [e])] =
        map (\<lambda>k. ann_vals st @ take k (texts v w es)) [0..<length es] @ [ann_vals st @ texts v w es]"
    by (simp add: tx len)
  show ?case
    unfolding snaps by (simp add: c ih tx)
qed

lemma history_lifo:
  assumes wf: "wf_state st" and m: "mode st = TextMode"
    and p: "\<forall>e\<in>set es. \<exists>t. prompt_text e = Some t \<and> t \<noteq> []"
    and l: "length (history st) \<le> 50"
    and k: "k \<le> min 50 (length es)"
  shows "ann_vals ((undo v ^^ k) (fold (click v w) es st)) =
           ann_vals st @ take (length es - k) (texts v w es)"
    and "length (history ((undo v ^^ k) (fold (click v w) es st))) =
           min 50 (length (history st) + length es) - k"
proof -
  let ?s = "fold (click v w) es st"
  let ?N = "length es" and ?l0 = "length (history st)"
  let ?snaps = "map (\<lambda>k. ann_vals st @ take k (texts v w es)) [0..<length es]"
  note c = clicks_abs [OF wf m p, of v w]
  have len: "length (texts v w es) = length es"
    by (simp add: texts_def)
  have H: "hist_vals ?s = drop (?l0 + ?N - 50) (hist_vals st @ ?snaps)"
    using c foldl_bounded_push [of "hist_vals st" ?snaps] l by simp
  have "length (hist_vals ?s) = length (hist_vals st @ ?snaps) - (?l0 + ?N - 50)"
    by (simp only: H length_drop)
  then have lh: "length (history ?s) = min 50 (?l0 + ?N)"
    by (simp add: min_def)
  have kl: "k \<le> length (history ?s)"
    using k lh by simp
  note u = undos_abs [OF conjunct1 [OF c] kl, of v]
  have "length (hist_vals ((undo v ^^ k) ?s)) = min 50 (?l0 + ?N) - k"
    using u lh by simp
  then show "length (history ((undo v ^^ k) ?s)) = min 50 (?l0 + ?N) - k"
    by simp
  show "ann_vals ((undo v ^^ k) ?s) = ann_vals st @ take (?N - k) (texts v w es)"
  proof (cases "k = 0")
    case True
    then show ?thesis using c by (simp add: len)
  next
    case False
    then have "ann_vals ((undo v ^^ k) ?s) = hist_vals ?s ! (length (history ?s) - k)"
      using u by simp
    also have "\<dots> = drop (?l0 + ?N - 50) (hist_vals st @ ?snaps) ! (min 50 (?l0 + ?N) - k)"
      by (simp only: H lh)
    also have "\<dots> = (hist_vals st @ ?snaps) ! (?l0 + ?N - 50 + (min 50 (?l0 + ?N) - k))"
      by (rule nth_drop) simp
    also have "?l0 + ?N - 50 + (min 50 (?l0 + ?N) - k) = ?l0 + (?N - k)"
      using k by arith
    also have "(hist_vals st @ ?snaps) ! (?l0 + (?N - k)) = ?snaps ! (?N - k)"
      by (simp add: nth_append)
    also have "\<dots> = ann_vals st @ take (?N - k) (texts v w es)"
    proof -
      have "?N - k < ?N" using k False by arith
      then show ?thesis by simp
    qed
    finally show ?thesis .
  qed
qed

text \<open>The store invariant holds initially and every operation keeps it; every
  operation keeps the history at 50 entries or fewer.\<close>

lemma wf_init: "wf_state init_state"
  by (simp add: wf_state_def init_state_def)

lemma wf_redraw [simp]: "wf_state (redraw v st) = wf_state st"
  by (simp add: wf_state_def)

lemma wf_push_annotation:
  "wf_state st \<Longrightarrow> wf_state (snd (push_annotation a st))"
  by (fastforce simp: wf_state_def less_Suc_eq)

lemma wf_points_push [simp]: "wf_state (points_push r p st) = wf_state st"
  by (simp add: wf_state_def)

lemma wf_click: "wf_state st \<Longrightarrow> wf_state (click v w e st)"
  by (simp add: click_def Let_def wf_pushHistory wf_push_annotation split: option.splits)

lemma wf_mousedown: "wf_state st \<Longrightarrow> wf_state (snd (mousedown v w e st))"
  by (simp add: mousedown_def Let_def split_def wf_pushHistory wf_push_annotation)

lemma wf_mousemove:
  "wf_state st \<Longrightarrow> mousemove v w e st = Inr (w', st') \<Longrightarrow> wf_state st'"
  by (auto simp: mousemove_def split: if_splits option.splits)

lemma wf_undo: "wf_state st \<Longrightarrow> wf_state (undo v st)"
  by (cases "history st = []") (simp_all add: undo_empty undo_abs)

lemma wf_loadFile: "wf_state (fst (loadFile v getDocument b st))"
  by (auto simp: loadFile_def renderPdf_def Let_def wf_state_def split: sum.splits prod.splits option.splits)

lemma history_loadFile: "history (fst (loadFile v getDocument b st)) = []"
  by (auto simp: loadFile_def renderPdf_def Let_def split: sum.splits prod.splits option.splits)

lemma history_bound_preserved:
  assumes "length (history st) \<le> 50"
  shows "length (history (pushHistory st)) \<le> 50"
    and "length (history (click v w e st)) \<le> 50"
    and "length (history (snd (mousedown v w e st))) \<le> 50"
    and "length (history (undo v st)) \<le> 50"
    and "mousemove v w e st = Inr (w', st') \<Longrightarrow> length (history st') \<le> 50"
proof -
  show p: "length (history (pushHistory st)) \<le> 50"
    using assms by (simp add: pushHistory_length)
  show "length (history (click v w e st)) \<le> 50"
    using assms p by (simp add: click_def Let_def split: option.splits)
  show "length (history (snd (mousedown v w e st))) \<le> 50"
    using assms p by (simp add: mousedown_def Let_def split_def)
  show "length (history (undo v st)) \<le> 50"
    using assms by (auto simp: undo_def)
  show "mousemove v w e st = Inr (w', st') \<Longrightarrow> length (history st') \<le> 50"
    using assms by (auto simp: mousemove_def split: if_splits option.splits)
qed


text \<open>
  Claim C6. No listener lets the history grow beyond 50 entries: a push, a click, a
  mousedown and an undo all leave at most 50 where there were at most 50. Take any state
  with an allocated store and at most 50 history entries, and let \<open>N\<close> answered clicks
  in text mode follow, each of which pushes one snapshot and appends one annotation.
  Then the history holds \<open>min 50 (n + N)\<close> entries, \<open>n\<close> being the number it held
  before. For every \<open>k\<close> up to \<open>min 50 N\<close>, \<open>k\<close> calls of \<open>undo\<close> give back the
  store as it was before the \<open>k\<close>-th last click, so the snapshots come back newest
  first and the ones that were dropped are the oldest. When \<open>N\<close> is 50 or more, the
  history is empty after 50 calls of \<open>undo\<close>, and the 51st changes nothing. In every
  state, \<open>undo\<close> with an empty history returns the state as it is.
\<close>

theorem history_bounded_lifo:
  "(length (history st) \<le> 50 \<longrightarrow>
      length (history (pushHistory st)) \<le> 50 \<and> length (history (click v w e st)) \<le> 50
      \<and> length (history (snd (mousedown v w e st))) \<le> 50
      \<and> length (history (undo v st)) \<le> 50)
   \<and> (wf_state st \<and> mode st = TextMode \<and> length (history st) \<le> 50
       \<and> (\<forall>e\<in>set es. \<exists>t. prompt_text e = Some t \<and> t \<noteq> []) \<longrightarrow>
        length (history (fold (click v w) es st)) = min 50 (length (history st) + length es)
        \<and> (\<forall>k\<le>min 50 (length es).
             ann_vals ((undo v ^^ k) (fold (click v w) es st)) =
               ann_vals st @ take (length es - k) (texts v w es)
             \<and> length (history ((undo v ^^ k) (fold (click v w) es st))) =
                 min 50 (length (history st) + length es) - k)
        \<and> (50 \<le> length es \<longrightarrow>
             history ((undo v ^^ 50) (fold (click v w) es st)) = []
             \<and> (undo v ^^ 51) (fold (click v w) es st) =
                 (undo v ^^ 50) (fold (click v w) es st)))
   \<and> (\<forall>s. history s = [] \<longrightarrow> undo v s = s)"
proof (intro conjI allI impI)
  assume "length (history st) \<le> 50"
  note b = history_bound_preserved [OF this]
  show "length (history (pushHistory st)) \<le> 50" by (rule b(1))
  show "length (history (click v w e st)) \<le> 50" by (rule b(2))
  show "length (history (snd (mousedown v w e st))) \<le> 50" by (rule b(3))
  show "length (history (undo v st)) \<le> 50" by (rule b(4))
next
  show "undo v s = s" if "history s = []" for s
    using that by (rule undo_empty)
next
  assume a: "wf_state st \<and> mode st = TextMode \<and> length (history st) \<le> 50
       \<and> (\<forall>e\<in>set es. \<exists>t. prompt_text e = Some t \<and> t \<noteq> [])"
  then have wf: "wf_state st" and m: "mode st = TextMode" and l: "length (history st) \<le> 50"
    and p: "\<forall>e\<in>set es. \<exists>t. prompt_text e = Some t \<and> t \<noteq> []"
    by simp_all
  show "length (history (fold (click v w) es st)) = min 50 (length (history st) + length es)"
    using history_lifo(2) [OF wf m p l, of 0 v w] by simp
  show "ann_vals ((undo v ^^ k) (fold (click v w) es st)) =
          ann_vals st @ take (length es - k) (texts v w es)" if "k \<le> min 50 (length es)" for k
    by (rule history_lifo(1) [OF wf m p l that])
  show "length (history ((undo v ^^ k) (fold (click v w) es st))) =
          min 50 (length (history st) + length es) - k" if "k \<le> min 50 (length es)" for k
    by (rule history_lifo(2) [OF wf m p l that])
  assume n: "50 \<le> length es"
  then have k: "50 \<le> min 50 (length es)" by simp
  have "length (history ((undo v ^^ 50) (fold (click v w) es st))) = 0"
    using history_lifo(2) [OF wf m p l k, of v w] n by simp
  then show e: "history ((undo v ^^ 50) (fold (click v w) es st)) = []"
    by simp
  have "(undo v ^^ Suc 50) (fold (click v w) es st) =
          undo v ((undo v ^^ 50) (fold (click v w) es st))"
    by (simp only: funpow.simps o_apply)
  then show "(undo v ^^ 51) (fold (click v w) es st) = (undo v ^^ 50) (fold (click v w) es st)"
    using undo_empty [OF e, of v] by simp
qed

theorem history_bounded_lifo_witness:
  "mode sample_state = TextMode
   \<and> length (history sample_state) = 1
   \<and> length (replicate 51 sample_event) = 51
   \<and> length (history (pushHistory sample_state)) \<le> 50
   \<and> length (history (fold (click App (wire 0)) (replicate 51 sample_event) sample_state)) = 50
   \<and> ann_vals ((undo App ^^ 50)
                  (fold (click App (wire 0)) (replicate 51 sample_event) sample_state)) =
       ann_vals sample_state @ take 1 (texts App (wire 0) (replicate 51 sample_event))
   \<and> history ((undo App ^^ 50)
                 (fold (click App (wire 0)) (replicate 51 sample_event) sample_state)) = []
   \<and> (undo App ^^ 51) (fold (click App (wire 0)) (replicate 51 sample_event) sample_state) =
       (undo App ^^ 50) (fold (click App (wire 0)) (replicate 51 sample_event) sample_state)
   \<and> history init_state = [] \<and> undo App init_state = init_state"
proof -
  have wf: "wf_state sample_state"
    by (simp add: sample_state_def wf_state_def)
  have m: "mode sample_state = TextMode"
    by (simp add: sample_state_def)
  have p: "\<forall>e\<in>set (replicate 51 sample_event). \<exists>t. prompt_text e = Some t \<and> t \<noteq> []"
    by (simp add: sample_event_def)
  have l: "length (history sample_state) \<le> 50" and l1: "length (history sample_state) = 1"
    by (simp_all add: sample_state_def)
  have i: "history init_state = []"
    by (simp add: init_state_def)
  note t = history_bounded_lifo [of sample_state App "wire 0" sample_event "replicate 51 sample_event"]
  note u = history_bounded_lifo [of init_state App "wire 0" sample_event "[]"]
  have a: "ann_vals ((undo App ^^ 50) (fold (click App (wire 0)) (replicate 51 sample_event) sample_state)) =
       ann_vals sample_state @ take 1 (texts App (wire 0) (replicate 51 sample_event))"
    using t [THEN conjunct2, THEN conjunct1, rule_format, THEN conjunct2, THEN conjunct1,
        rule_format, of 50] wf m p l by simp
  have n: "undo App init_state = init_state"
    using u i by blast
  show ?thesis
    using t wf m p l l1 a i n by simp
qed

section \<open>Repaint order\<close>

lemma paint_fields [simp]:
  "surface (paint v a p) = surface p @ [overlay_op v a]"
  "clearRect (paint v a p) = clearRect p"
  by (simp_all add: paint_def clearRect_def)

lemma redraw_loop_surface:
  "i < length ps \<Longrightarrow>
     surface (redraw_loop v as ps ! i) =
       surface (ps ! i) @ map (overlay_op v) (filter (\<lambda>a. pageIndex a = i) as)"
proof (induction as arbitrary: ps)
  case Nil
  then show ?case by simp
next
  case (Cons a as)
  then show ?case
    by (simp add: nth_list_update)
qed

lemma redraw_loop_cleared: "map clearRect (redraw_loop v as ps) = map clearRect ps"
proof (induction as arbitrary: ps)
  case Nil
  then show ?case by simp
next
  case (Cons a as)
  have "(map clearRect ps)[pageIndex a := clearRect (ps ! pageIndex a)] =
          map clearRect (ps[pageIndex a := ps ! pageIndex a])"
    by (simp only: map_update)
  then have "map clearRect (ps[pageIndex a := paint v a (ps ! pageIndex a)]) = map clearRect ps"
    by (simp add: map_update)
  then show ?case
    using Cons.IH by simp
qed

lemma clearRect_idem [simp]: "clearRect (clearRect p) = clearRect p"
  by (simp add: clearRect_def)

lemma pages_redraw: "pages (redraw v st) = redraw_loop v (ann_vals st) (map clearRect (pages st))"
  by (simp add: redraw_def ann_vals_def)

lemma cleared_redraw [simp]: "map clearRect (pages (redraw v st)) = map clearRect (pages st)"
  by (simp add: pages_redraw redraw_loop_cleared)

lemma ann_vals_redraw [simp]: "ann_vals (redraw v st) = ann_vals st"
  by (simp add: ann_vals_def)

lemma pages_undo:
  "history st \<noteq> [] \<Longrightarrow>
     pages (undo v st) = redraw_loop v (ann_vals (undo v st)) (map clearRect (pages st))"
  by (simp add: undo_def pages_redraw)

lemma cleared_click: "map clearRect (pages (click v w e st)) = map clearRect (pages st)"
  by (simp add: click_def Let_def split: option.splits)

lemma cleared_mousemoves:
  "mousemoves v es (w, st) = Inr (w', st') \<Longrightarrow> map clearRect (pages st') = map clearRect (pages st)"
proof (induction es arbitrary: w st)
  case Nil
  then show ?case by simp
next
  case (Cons e es)
  from Cons.prems obtain w1 st1 where
    s: "mousemove v w e st = Inr (w1, st1)" "mousemoves v es (w1, st1) = Inr (w', st')"
    by (auto split: sum.splits)
  have "map clearRect (pages st1) = map clearRect (pages st)"
    using s(1) by (auto simp: mousemove_def split: if_splits option.splits)
  then show ?case
    using Cons.IH [OF s(2)] by simp
qed

lemma pages_mousedown [simp]: "pages (snd (mousedown v w e st)) = pages st"
  by (simp add: mousedown_def Let_def split_def)

lemma fold_add_point_stroke:
  "fold add_point ps (StrokeA i qs wd c) = StrokeA i (qs @ ps) wd c"
  by (induction ps arbitrary: qs) simp_all

lemma stroke_gesture:
  assumes d: "draws v (mode st)"
  shows "\<exists>w' st' a. mousemoves v es (mousedown v w e st) = Inr (w', st')
           \<and> stroke w' = Some (next_ref (pushHistory st))
           \<and> history st' = history (pushHistory st)
           \<and> annotations st' = annotations st @ [next_ref (pushHistory st)]
           \<and> next_ref st' = Suc (next_ref (pushHistory st))
           \<and> heap st' = (heap (pushHistory st))(next_ref (pushHistory st) := a)
           \<and> map clearRect (pages st') = map clearRect (pages st)
           \<and> pageIndex a = w_pageIndex w
           \<and> points a = (if v = AppSecond then [] else [pointer e]) @ map pointer es"
proof -
  let ?r = "next_ref (pushHistory st)"
  let ?w = "fst (mousedown v w e st)" and ?s = "snd (mousedown v w e st)"
  note me = mousedown_effect [OF d, of w e]
  have w: "drawing ?w" "stroke ?w = Some ?r"
    by (simp_all add: me)
  have m: "draws v (mode ?s)"
    by (simp add: me d)
  from mousemoves_effect [OF w m, of es] obtain st' where
    r: "mousemoves v es (?w, ?s) = Inr (?w, st')" "history st' = history ?s"
       "annotations st' = annotations ?s" "next_ref st' = next_ref ?s"
       "heap st' = (heap ?s)(?r := fold add_point (map pointer es) (heap ?s ?r))"
    by blast
  let ?a = "fold add_point (map pointer es) (heap ?s ?r)"
  have c: "map clearRect (pages st') = map clearRect (pages st)"
    using cleared_mousemoves [OF r(1)] by simp
  have h: "heap st' = (heap (pushHistory st))(?r := ?a)"
    by (simp add: r(5) me(3))
  have a: "pageIndex ?a = w_pageIndex w"
      "points ?a = (if v = AppSecond then [] else [pointer e]) @ map pointer es"
    by (simp_all add: me(3) fold_add_point_stroke)
  show ?thesis
    using r(1) w(2) r(2,3,4) me(2,4,5) c h a
    by (intro exI [of _ ?w] exI [of _ st'] exI [of _ ?a]) simp
qed

lemma appended_vals:
  assumes wf: "wf_state st"
    and a: "annotations st' = annotations st @ [next_ref (pushHistory st)]"
    and h: "heap st' = (heap (pushHistory st))(next_ref (pushHistory st) := x)"
  shows "ann_vals st' = ann_vals st @ [x]"
proof -
  have wp: "wf_state (pushHistory st)" by (rule wf_pushHistory [OF wf])
  have "map (heap st') (annotations st) = ann_vals (pushHistory st)"
    using wp by (auto simp: ann_vals_def wf_state_def h)
  then show ?thesis
    by (simp add: ann_vals_def [of st'] a h wf_ann_vals_pushHistory [OF wf])
qed


text \<open>
  Claim C7. \<open>redraw\<close> clears every overlay and then paints, on each page, the
  annotations of that page in the order of the annotation sequence, one painting call
  each, later ones over earlier ones, whether they are texts or strokes. An edit appends
  its annotation at the end of the sequence. After an edit and \<open>undo\<close>, the overlays
  are exactly those of a repaint of the sequence before the edit: the undone annotation
  is gone and the order of the others is kept.
\<close>

theorem repaint_in_append_order:
  "(\<forall>i<length (pages st).
       surface (pages (redraw v st) ! i) =
         map (overlay_op v) (filter (\<lambda>a. pageIndex a = i) (ann_vals st)))
   \<and> length (pages (redraw v st)) = length (pages st)
   \<and> (mode st = TextMode \<and> prompt_text e = Some t \<and> t \<noteq> [] \<longrightarrow>
        pages (undo v (click v w e st)) = pages (redraw v st)
        \<and> (wf_state st \<longrightarrow> ann_vals (click v w e st) = ann_vals st @ [new_text v w e t]))
   \<and> (draws v (mode st) \<longrightarrow>
        (\<exists>w' st' a. mousemoves v es (mousedown v w e st) = Inr (w', st')
            \<and> pages (undo v st') = pages (redraw v st)
            \<and> pageIndex a = w_pageIndex w
            \<and> points a = (if v = AppSecond then [] else [pointer e]) @ map pointer es
            \<and> (wf_state st \<longrightarrow> ann_vals st' = ann_vals st @ [a])))"
proof (intro conjI allI impI)
  fix i assume "i < length (pages st)"
  then show "surface (pages (redraw v st) ! i) =
         map (overlay_op v) (filter (\<lambda>a. pageIndex a = i) (ann_vals st))"
    by (simp add: pages_redraw redraw_loop_surface clearRect_def)
next
  show "length (pages (redraw v st)) = length (pages st)"
    by (simp add: pages_redraw)
next
  assume a: "mode st = TextMode \<and> prompt_text e = Some t \<and> t \<noteq> []"
  then have ce: "history (click v w e st) = history (pushHistory st)"
      "heap (click v w e st) = (heap (pushHistory st))(next_ref (pushHistory st) := new_text v w e t)"
      "annotations (click v w e st) = annotations st @ [next_ref (pushHistory st)]"
    by (simp_all add: click_effect)
  have u: "ann_vals (undo v (click v w e st)) = ann_vals st"
    by (rule undo_restores) (simp_all add: ce pushHistory_next_ref)
  have ne: "history (click v w e st) \<noteq> []"
    by (simp add: ce pushHistory_history_nonempty)
  show "pages (undo v (click v w e st)) = pages (redraw v st)"
    by (simp add: pages_undo [OF ne] u cleared_click pages_redraw)
  show "ann_vals (click v w e st) = ann_vals st @ [new_text v w e t]" if "wf_state st"
    by (rule appended_vals [OF that ce(3) ce(2)])
next
  assume d: "draws v (mode st)"
  from stroke_gesture [OF d, of es w e] obtain w' st' a where
    g: "mousemoves v es (mousedown v w e st) = Inr (w', st')"
       "history st' = history (pushHistory st)"
       "annotations st' = annotations st @ [next_ref (pushHistory st)]"
       "heap st' = (heap (pushHistory st))(next_ref (pushHistory st) := a)"
       "map clearRect (pages st') = map clearRect (pages st)"
       "pageIndex a = w_pageIndex w"
       "points a = (if v = AppSecond then [] else [pointer e]) @ map pointer es"
    by blast
  have u: "ann_vals (undo v st') = ann_vals st"
    by (rule undo_restores) (simp_all add: g pushHistory_next_ref)
  have ne: "history st' \<noteq> []"
    by (simp add: g pushHistory_history_nonempty)
  have p: "pages (undo v st') = pages (redraw v st)"
    by (simp add: pages_undo [OF ne] u g pages_redraw)
  have v: "wf_state st \<longrightarrow> ann_vals st' = ann_vals st @ [a]"
    using appended_vals [OF _ g(3) g(4)] by blast
  show "\<exists>w' st' a. mousemoves v es (mousedown v w e st) = Inr (w', st')
            \<and> pages (undo v st') = pages (redraw v st)
            \<and> pageIndex a = w_pageIndex w
            \<and> points a = (if v = AppSecond then [] else [pointer e]) @ map pointer es
            \<and> (wf_state st \<longrightarrow> ann_vals st' = ann_vals st @ [a])"
    using g(1) p g(6,7) v by blast
qed

theorem repaint_in_append_order_witness:
  "1 < length (pages layered_state)
   \<and> surface (pages (redraw App layered_state) ! 1) =
       [FillText ''yellow'' 18 ''A'' 10 20,
        StrokePath ''lime'' (Some 2) [MoveTo 0 0, LineTo 5 5],
        FillText ''yellow'' 18 ''C'' 30 40]
   \<and> mode sample_state = TextMode \<and> prompt_text sample_event = Some ''Hi'' \<and> ''Hi'' \<noteq> []
   \<and> ann_vals (click App (wire 0) sample_event sample_state) =
       [TextA 0 50 50 ''A'' (Some 18) None, TextA 0 50 50 ''Hi'' (Some 18) None]
   \<and> pages (undo App (click App (wire 0) sample_event sample_state)) = pages (redraw App sample_state)
   \<and> surface (pages (redraw App sample_state) ! 0) = [FillText ''yellow'' 18 ''A'' 50 50]
   \<and> draws App (mode layered_state)
   \<and> (\<exists>w' st'. mousemoves App [sample_event] (mousedown App (wire 1) sample_event layered_state) = Inr (w', st')
         \<and> pages (undo App st') = pages (redraw App layered_state))"
proof -
  have l: "1 < length (pages layered_state)" "0 < length (pages sample_state)"
    by (simp_all add: layered_state_def sample_state_def)
  have av: "ann_vals layered_state =
      [TextA 1 10 20 ''A'' (Some 18) None, StrokeA 1 [(0, 0), (5, 5)] (Some 2) None,
       TextA 0 7 7 ''elsewhere'' (Some 18) None, TextA 1 30 40 ''C'' (Some 18) None]"
    by (simp add: layered_state_def ann_vals_def)
  have as: "ann_vals sample_state = [TextA 0 50 50 ''A'' (Some 18) None]"
    by (simp add: sample_state_def ann_vals_def)
  have m: "mode sample_state = TextMode \<and> prompt_text sample_event = Some ''Hi'' \<and> ''Hi'' \<noteq> []"
    by (simp add: sample_state_def sample_event_def)
  have wf: "wf_state sample_state"
    by (simp add: sample_state_def wf_state_def)
  have d: "draws App (mode layered_state)"
    by (simp add: draws_def layered_state_def)
  have nt: "new_text App (wire 0) sample_event ''Hi'' = TextA 0 50 50 ''Hi'' (Some 18) None"
    by (simp add: new_text_def wire_def pointer_def sample_event_def)
  note t1 = repaint_in_append_order [of layered_state App sample_event "''Hi''" "wire 1" "[sample_event]"]
  note t2 = repaint_in_append_order [of sample_state App sample_event "''Hi''" "wire 0" "[]"]
  have s1: "surface (pages (redraw App layered_state) ! 1) =
       [FillText ''yellow'' 18 ''A'' 10 20,
        StrokePath ''lime'' (Some 2) [MoveTo 0 0, LineTo 5 5],
        FillText ''yellow'' 18 ''C'' 30 40]"
    using t1 [THEN conjunct1, rule_format, OF l(1)] by (simp add: av num_or_def)
  have s2: "surface (pages (redraw App sample_state) ! 0) = [FillText ''yellow'' 18 ''A'' 50 50]"
    using t2 [THEN conjunct1, rule_format, OF l(2)] by (simp add: as num_or_def)
  have c: "ann_vals (click App (wire 0) sample_event sample_state) =
       [TextA 0 50 50 ''A'' (Some 18) None, TextA 0 50 50 ''Hi'' (Some 18) None]"
      "pages (undo App (click App (wire 0) sample_event sample_state)) = pages (redraw App sample_state)"
    using t2 m wf by (simp_all add: as nt)
  have g: "\<exists>w' st'. mousemoves App [sample_event] (mousedown App (wire 1) sample_event layered_state) = Inr (w', st')
         \<and> pages (undo App st') = pages (redraw App layered_state)"
    using t1 d by blast
  show ?thesis
    using l(1) s1 m wf c s2 d g by blast
qed

end
